theory Spec2Isabelle
  imports Main
begin

section \<open>The AVL multimap: data model\<close>

text \<open>
  The Go node type is
  \<^verbatim>\<open>type node[K cmp.Ordered, V any] struct { key K; value []V; left, right *node[K, V]; height int }\<close>.
  A pointer to a node is either nil or owns a node, so a subtree is a value of the datatype
  below: \<open>NilNode\<close> is the nil pointer, \<open>Node key value left right height\<close> a node with its
  fields in the order of the struct. The key type is a linear order (the specification takes
  \<open>K\<close> totally ordered), the cached height is an unbounded integer (a Go \<open>int\<close> of 64 bits
  cannot overflow on the height or the size of a tree that fits in memory).
\<close>

datatype ('k, 'v) node = NilNode | Node 'k "'v list" "('k, 'v) node" "('k, 'v) node" int

text \<open>
  The two ways the node layer can abort: a nil pointer dereference (a Go panic) and the
  \<^verbatim>\<open>log.Fatal("tried to update height on nil node")\<close> of \<open>updateHeight\<close>.
\<close>

datatype error = NilDereference | FatalUpdateHeightOnNil

text \<open>\<^verbatim>\<open>createNode\<close>: a fresh node holding one value, at height 1.\<close>

definition createNode :: "'k \<Rightarrow> 'v \<Rightarrow> ('k, 'v) node" where
  "createNode k v = Node k [v] NilNode NilNode 1"

text \<open>\<^verbatim>\<open>getHeight\<close>: 0 on nil, else the cached height.\<close>

fun getHeight :: "('k, 'v) node \<Rightarrow> int" where
  "getHeight NilNode = 0"
| "getHeight (Node k vs l r h) = h"

text \<open>\<^verbatim>\<open>getSize\<close>: 0 on nil, else a recursive count of the nodes.\<close>

fun getSize :: "('k, 'v) node \<Rightarrow> int" where
  "getSize NilNode = 0"
| "getSize (Node k vs l r h) = 1 + getSize l + getSize r"

text \<open>
  \<^verbatim>\<open>updateHeight\<close> mutates the receiver's height field; on a nil receiver it calls
  \<open>log.Fatal\<close>, which ends the process. The model returns the updated node.
\<close>

fun updateHeight :: "('k, 'v) node \<Rightarrow> error + ('k, 'v) node" where
  "updateHeight NilNode = Inl FatalUpdateHeightOnNil"
| "updateHeight (Node k vs l r h) = Inr (Node k vs l r (1 + max (getHeight l) (getHeight r)))"

text \<open>\<^verbatim>\<open>balanceFactor\<close>: 0 on nil, else cached height of left minus cached height of right.\<close>

fun balanceFactor :: "('k, 'v) node \<Rightarrow> int" where
  "balanceFactor NilNode = 0"
| "balanceFactor (Node k vs l r h) = getHeight l - getHeight r"

text \<open>
  \<^verbatim>\<open>rotateRight\<close>: \<open>x := y.left; T2 := x.right; x.right = y; y.left = T2;
  y.updateHeight(); x.updateHeight(); return x\<close>. Reading \<open>y.left\<close> on a nil \<open>y\<close> or
  \<open>x.right\<close> on a nil \<open>x\<close> panics.
\<close>

fun rotateRight :: "('k, 'v) node \<Rightarrow> error + ('k, 'v) node" where
  "rotateRight NilNode = Inl NilDereference"
| "rotateRight (Node ky vy NilNode yr hy) = Inl NilDereference"
| "rotateRight (Node ky vy (Node kx vx xl T2 hx) yr hy) =
     (case updateHeight (Node ky vy T2 yr hy) of
        Inl e \<Rightarrow> Inl e
      | Inr y' \<Rightarrow> updateHeight (Node kx vx xl y' hx))"

text \<open>
  \<^verbatim>\<open>rotateLeft\<close>: \<open>y := x.right; T2 := y.left; y.left = x; x.right = T2;
  x.updateHeight(); y.updateHeight(); return y\<close>.
\<close>

fun rotateLeft :: "('k, 'v) node \<Rightarrow> error + ('k, 'v) node" where
  "rotateLeft NilNode = Inl NilDereference"
| "rotateLeft (Node kx vx xl NilNode hx) = Inl NilDereference"
| "rotateLeft (Node kx vx xl (Node ky vy T2 yr hy) hx) =
     (case updateHeight (Node kx vx xl T2 hx) of
        Inl e \<Rightarrow> Inl e
      | Inr x' \<Rightarrow> updateHeight (Node ky vy x' yr hy))"

text \<open>
  The second half of \<^verbatim>\<open>balance\<close>, after \<open>n.updateHeight()\<close>: the four rotation cases
  in the order of the source. \<open>n.left.balanceFactor()\<close> is safe on a nil child.
\<close>

fun rebalance :: "('k, 'v) node \<Rightarrow> error + ('k, 'v) node" where
  "rebalance NilNode = Inl NilDereference"
| "rebalance (Node k vs l r h) =
     (let b = balanceFactor (Node k vs l r h) in
      if b > 1 \<and> balanceFactor l \<ge> 0 then rotateRight (Node k vs l r h)
      else if b > 1 \<and> balanceFactor l < 0 then
        (case rotateLeft l of
           Inl e \<Rightarrow> Inl e
         | Inr l' \<Rightarrow> rotateRight (Node k vs l' r h))
      else if b < - 1 \<and> balanceFactor r \<le> 0 then rotateLeft (Node k vs l r h)
      else if b < - 1 \<and> balanceFactor r > 0 then
        (case rotateRight r of
           Inl e \<Rightarrow> Inl e
         | Inr r' \<Rightarrow> rotateLeft (Node k vs l r' h))
      else Inr (Node k vs l r h))"

text \<open>\<^verbatim>\<open>balance\<close>: recompute the height, then rotate if the balance factor asks for it.\<close>

definition balance :: "('k, 'v) node \<Rightarrow> error + ('k, 'v) node" where
  "balance n = (case updateHeight n of Inl e \<Rightarrow> Inl e | Inr n' \<Rightarrow> rebalance n')"

text \<open>
  \<^verbatim>\<open>insert\<close>: a nil receiver gives a fresh node; a smaller or larger key recurses into the
  child, rebinds it and balances; an equal key appends the value and returns the node as
  it is, without balancing.
\<close>

fun insert_n :: "'k::linorder \<Rightarrow> 'v \<Rightarrow> ('k, 'v) node \<Rightarrow> error + ('k, 'v) node" where
  "insert_n key v NilNode = Inr (createNode key v)"
| "insert_n key v (Node k vs l r h) =
     (if key < k then
        (case insert_n key v l of
           Inl e \<Rightarrow> Inl e
         | Inr l' \<Rightarrow> balance (Node k vs l' r h))
      else if key > k then
        (case insert_n key v r of
           Inl e \<Rightarrow> Inl e
         | Inr r' \<Rightarrow> balance (Node k vs l r' h))
      else Inr (Node k (vs @ [v]) l r h))"

text \<open>
  \<^verbatim>\<open>minValueNode\<close>: \<open>current := n; for current.left != nil { current = current.left }\<close>.
  The loop test dereferences \<open>current\<close>, so a nil receiver panics.
\<close>

fun minValueNode :: "('k, 'v) node \<Rightarrow> error + ('k, 'v) node" where
  "minValueNode NilNode = Inl NilDereference"
| "minValueNode (Node k vs NilNode r h) = Inr (Node k vs NilNode r h)"
| "minValueNode (Node k vs (Node lk lvs ll lr lh) r h) = minValueNode (Node lk lvs ll lr lh)"

text \<open>
  \<^verbatim>\<open>delete\<close>: nil stays nil; a smaller or larger key recurses, rebinds and balances; on the
  node itself, a missing left child returns the right child, a missing right child the
  left one (both without balancing), and with two children the node takes the key and the
  values of the leftmost node of the right subtree, that key is deleted from the right
  subtree, and the node is balanced.
\<close>

fun delete_n :: "'k::linorder \<Rightarrow> ('k, 'v) node \<Rightarrow> error + ('k, 'v) node" where
  "delete_n key NilNode = Inr NilNode"
| "delete_n key (Node k vs l r h) =
     (if key < k then
        (case delete_n key l of
           Inl e \<Rightarrow> Inl e
         | Inr l' \<Rightarrow> balance (Node k vs l' r h))
      else if key > k then
        (case delete_n key r of
           Inl e \<Rightarrow> Inl e
         | Inr r' \<Rightarrow> balance (Node k vs l r' h))
      else if l = NilNode then Inr r
      else if r = NilNode then Inr l
      else
        (case minValueNode r of
           Inl e \<Rightarrow> Inl e
         | Inr NilNode \<Rightarrow> Inl NilDereference
         | Inr (Node tk tvs tleft tright th) \<Rightarrow>
             (case delete_n tk r of
                Inl e \<Rightarrow> Inl e
              | Inr r' \<Rightarrow> balance (Node tk tvs l r' h))))"


text \<open>
  \<^verbatim>\<open>find\<close>: \<open>(nil, false)\<close> on nil; the node's values on an equal key; else descend left
  on a smaller key and right otherwise. The nil slice is the empty list.
\<close>

fun find_n :: "'k::linorder \<Rightarrow> ('k, 'v) node \<Rightarrow> 'v list \<times> bool" where
  "find_n key NilNode = ([], False)"
| "find_n key (Node k vs l r h) =
     (if k = key then (vs, True)
      else if key < k then find_n key l
      else find_n key r)"

text \<open>\<^verbatim>\<open>findNode\<close>: as \<open>find\<close>, returning the node itself.\<close>

fun findNode :: "'k::linorder \<Rightarrow> ('k, 'v) node \<Rightarrow> ('k, 'v) node \<times> bool" where
  "findNode key NilNode = (NilNode, False)"
| "findNode key (Node k vs l r h) =
     (if k = key then (Node k vs l r h, True)
      else if key < k then findNode key l
      else findNode key r)"

text \<open>\<^verbatim>\<open>contains\<close>: the flag of \<open>find\<close>.\<close>

definition contains_n :: "'k::linorder \<Rightarrow> ('k, 'v) node \<Rightarrow> bool" where
  "contains_n key n = snd (find_n key n)"

subsection \<open>Rendering\<close>

text \<open>\<^verbatim>\<open>strings.TrimSuffix\<close>: the string without the suffix when it ends with it.\<close>

definition TrimSuffix :: "string \<Rightarrow> string \<Rightarrow> string" where
  "TrimSuffix s suf =
     (if length suf \<le> length s \<and> drop (length s - length suf) s = suf
      then take (length s - length suf) s else s)"

text \<open>
  \<^verbatim>\<open>traverseString\<close> appends to a \<open>strings.Builder\<close>, passed here as the text built so
  far: left subtree, then \<open>fmt.Fprintf(sb, "%v, ", n.key)\<close>, then right subtree. The
  rendering of a key by \<open>%v\<close> is the parameter \<open>fmtv\<close>.
\<close>

fun traverseString :: "('k \<Rightarrow> string) \<Rightarrow> ('k, 'v) node \<Rightarrow> string \<Rightarrow> string" where
  "traverseString fmtv NilNode sb = sb"
| "traverseString fmtv (Node k vs l r h) sb =
     traverseString fmtv r (traverseString fmtv l sb @ fmtv k @ '', '')"

text \<open>\<^verbatim>\<open>String\<close> of a node: empty on nil, else the bracketed traversal with the last
  separator trimmed.\<close>

fun String_n :: "('k \<Rightarrow> string) \<Rightarrow> ('k, 'v) node \<Rightarrow> string" where
  "String_n fmtv NilNode = []"
| "String_n fmtv (Node k vs l r h) =
     TrimSuffix (traverseString fmtv (Node k vs l r h) ''['') '', '' @ '']''"

text \<open>
  \<^verbatim>\<open>Print\<close> of a node: nothing on nil, else \<open>log.Println(n.String())\<close>. The diagnostic
  sink is modelled by the list of messages handed to the logger.
\<close>

fun Print_n :: "('k \<Rightarrow> string) \<Rightarrow> ('k, 'v) node \<Rightarrow> string list" where
  "Print_n fmtv NilNode = []"
| "Print_n fmtv (Node k vs l r h) = [String_n fmtv (Node k vs l r h)]"

section \<open>The Tree handle\<close>

text \<open>\<^verbatim>\<open>type Tree struct { root *node }\<close>; \<open>New\<close> returns the handle with a nil root.\<close>

datatype ('k, 'v) Tree = Tree (root: "('k, 'v) node")

definition New :: "('k, 'v) Tree" where
  "New = Tree NilNode"

definition Insert :: "'k::linorder \<Rightarrow> 'v \<Rightarrow> ('k, 'v) Tree \<Rightarrow> error + ('k, 'v) Tree" where
  "Insert key v t =
     (case insert_n key v (root t) of Inl e \<Rightarrow> Inl e | Inr n \<Rightarrow> Inr (Tree n))"

definition Delete :: "'k::linorder \<Rightarrow> ('k, 'v) Tree \<Rightarrow> error + ('k, 'v) Tree" where
  "Delete key t =
     (if root t = NilNode then Inr t
      else (case delete_n key (root t) of Inl e \<Rightarrow> Inl e | Inr n \<Rightarrow> Inr (Tree n)))"

definition Height :: "('k, 'v) Tree \<Rightarrow> int" where
  "Height t = (if root t = NilNode then 0 else getHeight (root t))"

definition Size :: "('k, 'v) Tree \<Rightarrow> int" where
  "Size t = (if root t = NilNode then 0 else getSize (root t))"


definition Find :: "'k::linorder \<Rightarrow> ('k, 'v) Tree \<Rightarrow> 'v list \<times> bool" where
  "Find key t = (if root t = NilNode then ([], False) else find_n key (root t))"

definition Contains :: "'k::linorder \<Rightarrow> ('k, 'v) Tree \<Rightarrow> bool" where
  "Contains key t = (if root t = NilNode then False else contains_n key (root t))"

definition String_t :: "('k \<Rightarrow> string) \<Rightarrow> ('k, 'v) Tree \<Rightarrow> string" where
  "String_t fmtv t = (if root t = NilNode then ''[]'' else String_n fmtv (root t))"

definition Print_t :: "('k \<Rightarrow> string) \<Rightarrow> ('k, 'v) Tree \<Rightarrow> string list" where
  "Print_t fmtv t =
     (if root t = NilNode then [''Tried to print empty tree''] else Print_n fmtv (root t))"


subsection \<open>Sequences of mutations\<close>

datatype ('k, 'v) mutation = DoInsert 'k 'v | DoDelete 'k

fun apply_mutation :: "('k::linorder, 'v) mutation \<Rightarrow> ('k, 'v) Tree \<Rightarrow> error + ('k, 'v) Tree" where
  "apply_mutation (DoInsert key v) t = Insert key v t"
| "apply_mutation (DoDelete key) t = Delete key t"

text \<open>Running a list of calls from a tree; the first abort ends the run.\<close>

fun run :: "('k::linorder, 'v) mutation list \<Rightarrow> ('k, 'v) Tree \<Rightarrow> error + ('k, 'v) Tree" where
  "run [] t = Inr t"
| "run (m # ms) t = (case apply_mutation m t of Inl e \<Rightarrow> Inl e | Inr t' \<Rightarrow> run ms t')"

section \<open>The calendar-line decoder\<close>

text \<open>
  A Go string is a sequence of bytes, here a \<open>string\<close>. \<^verbatim>\<open>Property\<close> and \<^verbatim>\<open>Component\<close>
  are Go integer types whose constants are numbered by \<open>iota\<close> in the order of their
  declaration; \<^verbatim>\<open>UnknownProperty\<close> and \<^verbatim>\<open>UnknownComponent\<close> are \<open>-1\<close>.
\<close>

type_synonym Property = int
type_synonym Component = int

definition UnknownProperty :: Property where
  "UnknownProperty = - 1"

definition UnknownComponent :: Component where
  "UnknownComponent = - 1"

text \<open>\<^verbatim>\<open>Param\<close>: the upper-cased key and the raw value of one parameter.\<close>

datatype Param = Param string string

record ParsedLine =
  Property :: Property
  IsBegin :: bool
  IsEnd :: bool
  Component :: Component
  RawName :: string
  Params :: string
  ParsedParams :: "Param list"
  Value :: string
  IsUnknown :: bool

text \<open>The two errors of \<^verbatim>\<open>ParseLine\<close>; the second carries the line of its message.\<close>

datatype ics_error = ErrEmptyLine | ErrNoSeparator string

text \<open>
  The lookup table \<^verbatim>\<open>propertyByName\<close> built by \<open>init\<close>: each name with the \<open>iota\<close> value
  of its constant.
\<close>

definition propertyByName_table :: "(string \<times> Property) list" where
  "propertyByName_table =
    [(''CALSCALE'', 0), (''METHOD'', 1), (''PRODID'', 2), (''VERSION'', 3), (''ATTACH'', 4),
     (''CATEGORIES'', 5), (''CLASS'', 6), (''COMMENT'', 7), (''DESCRIPTION'', 8),
     (''GEO'', 9), (''LOCATION'', 10), (''PERCENT-COMPLETE'', 11), (''PRIORITY'', 12),
     (''RESOURCES'', 13), (''STATUS'', 14), (''SUMMARY'', 15), (''COMPLETED'', 16),
     (''DTEND'', 17), (''DUE'', 18), (''DTSTART'', 19), (''DURATION'', 20),
     (''FREEBUSY'', 21), (''TRANSP'', 22), (''TZID'', 23), (''TZNAME'', 24),
     (''TZOFFSETFROM'', 25), (''TZOFFSETTO'', 26), (''TZURL'', 27), (''ATTENDEE'', 28),
     (''CONTACT'', 29), (''ORGANIZER'', 30), (''RECURRENCE-ID'', 31), (''RELATED-TO'', 32),
     (''URL'', 33), (''UID'', 34), (''EXDATE'', 35), (''RDATE'', 36), (''RRULE'', 37),
     (''ACTION'', 38), (''REPEAT'', 39), (''TRIGGER'', 40), (''CREATED'', 41),
     (''DTSTAMP'', 42), (''LAST-MODIFIED'', 43), (''SEQUENCE'', 44), (''REQUEST-STATUS'', 45),
     (''NAME'', 46), (''REFRESH-INTERVAL'', 47), (''SOURCE'', 48), (''COLOR'', 49),
     (''IMAGE'', 50), (''CONFERENCE'', 51), (''PARTICIPANT'', 52), (''STRUCTURED-DATA'', 53),
     (''STYLED-DESCRIPTION'', 54), (''LOCATION-TYPE'', 55), (''RESOURCE-TYPE'', 56),
     (''ACKNOWLEDGED'', 57), (''PROXIMITY'', 58), (''BUSYTYPE'', 59), (''X-WR-CALNAME'', 60),
     (''X-WR-CALDESC'', 61), (''X-WR-TIMEZONE'', 62), (''X-WR-RELCALID'', 63),
     (''X-APPLE-STRUCTURED-LOCATION'', 64), (''X-APPLE-TRAVEL-ADVISORY-BEHAVIOR'', 65),
     (''X-APPLE-DEFAULT-ALARM'', 66), (''X-APPLE-OMIT-FROM-SYNC'', 67),
     (''X-MICROSOFT-CDO-BUSYSTATUS'', 68), (''X-MICROSOFT-CDO-INTENDEDSTATUS'', 69),
     (''X-MICROSOFT-CDO-ALLDAYEVENT'', 70), (''X-MICROSOFT-CDO-IMPORTANCE'', 71),
     (''X-MICROSOFT-CDO-INSTTYPE'', 72), (''X-MICROSOFT-CDO-OWNER-APPT-ID'', 73),
     (''X-MICROSOFT-CDO-APPT-SEQUENCE'', 74), (''X-GOOGLE-CONFERENCE'', 75),
     (''X-GOOGLE-STRUCTURED-LOCATION'', 76), (''X-GOOGLE-CALENDAR-ID'', 77)]"

definition propertyByName :: "string \<Rightarrow> Property option" where
  "propertyByName = map_of propertyByName_table"

text \<open>The lookup table \<^verbatim>\<open>componentByName\<close>.\<close>

definition componentByName_table :: "(string \<times> Component) list" where
  "componentByName_table =
    [(''VCALENDAR'', 0), (''VEVENT'', 1), (''VTODO'', 2), (''VJOURNAL'', 3),
     (''VFREEBUSY'', 4), (''VTIMEZONE'', 5), (''VALARM'', 6), (''VAVAILABILITY'', 7),
     (''AVAILABLE'', 8), (''STANDARD'', 9), (''DAYLIGHT'', 10), (''VLOCATION'', 11),
     (''VRESOURCE'', 12)]"

definition componentByName :: "string \<Rightarrow> Component option" where
  "componentByName = map_of componentByName_table"

text \<open>\<^verbatim>\<open>strings.TrimRight\<close>: the string without its trailing bytes that are in the cutset.\<close>

definition TrimRight :: "string \<Rightarrow> string \<Rightarrow> string" where
  "TrimRight s cutset = rev (dropWhile (\<lambda>c. c \<in> set cutset) (rev s))"

text \<open>\<^verbatim>\<open>strings.IndexByte\<close>: the index of the first occurrence of the byte, or \<open>-1\<close>.\<close>

fun IndexByte :: "string \<Rightarrow> char \<Rightarrow> int" where
  "IndexByte [] c = - 1"
| "IndexByte (x # xs) c =
     (if x = c then 0 else (let i = IndexByte xs c in if i < 0 then - 1 else i + 1))"

text \<open>
  \<^verbatim>\<open>splitOnFirstUnquotedColon\<close>: the loop over the byte index \<open>i\<close> with the flag
  \<open>inQuote\<close>; a double quote flips the flag, a colon outside quotes ends the loop
  with \<open>(s[:i], s[i+1:], true)\<close>, and the end of the string gives \<open>("", "", false)\<close>.
\<close>

function splitColonLoop :: "string \<Rightarrow> nat \<Rightarrow> bool \<Rightarrow> string \<times> string \<times> bool" where
  "splitColonLoop s i inQuote =
     (if i < length s then
        (if s ! i = CHR 0x22 then splitColonLoop s (i + 1) (\<not> inQuote)
         else if s ! i = CHR '':'' then
           (if \<not> inQuote then (take i s, drop (i + 1) s, True)
            else splitColonLoop s (i + 1) inQuote)
         else splitColonLoop s (i + 1) inQuote)
      else ([], [], False))"
  by pat_completeness auto
termination
  by (relation "measure (\<lambda>(s, i, inQuote). length s - i)") auto

declare splitColonLoop.simps [simp del]

definition splitOnFirstUnquotedColon :: "string \<Rightarrow> string \<times> string \<times> bool" where
  "splitOnFirstUnquotedColon s = splitColonLoop s 0 False"

text \<open>
  \<^verbatim>\<open>splitUnquoted\<close>: the loop with the start index of the current part and the parts
  collected so far; the rest of the string is the last part.
\<close>

function splitUnquotedLoop ::
  "string \<Rightarrow> char \<Rightarrow> nat \<Rightarrow> nat \<Rightarrow> bool \<Rightarrow> string list \<Rightarrow> string list" where
  "splitUnquotedLoop s sep i start inQuote parts =
     (if i < length s then
        (if s ! i = CHR 0x22 then splitUnquotedLoop s sep (i + 1) start (\<not> inQuote) parts
         else if s ! i = sep \<and> \<not> inQuote then
           splitUnquotedLoop s sep (i + 1) (i + 1) inQuote (parts @ [take (i - start) (drop start s)])
         else splitUnquotedLoop s sep (i + 1) start inQuote parts)
      else parts @ [drop start s])"
  by pat_completeness auto
termination
  by (relation "measure (\<lambda>(s, sep, i, start, inQuote, parts). length s - i)") auto

declare splitUnquotedLoop.simps [simp del]

definition splitUnquoted :: "string \<Rightarrow> char \<Rightarrow> string list" where
  "splitUnquoted s sep = splitUnquotedLoop s sep 0 0 False []"

text \<open>
  \<^verbatim>\<open>parseParams\<close>: each part between unquoted semicolons is trimmed; an empty part is
  skipped, a part without \<open>=\<close> gives its upper-cased name with an empty value, and else
  the upper-cased trimmed name and the trimmed value. \<^verbatim>\<open>strings.ToUpper\<close> and
  \<^verbatim>\<open>strings.TrimSpace\<close> belong to the Go library and are parameters here.
\<close>

fun parseParamsLoop ::
  "(string \<Rightarrow> string) \<Rightarrow> (string \<Rightarrow> string) \<Rightarrow> string list \<Rightarrow> Param list \<Rightarrow> Param list" where
  "parseParamsLoop ToUpper TrimSpace [] params = params"
| "parseParamsLoop ToUpper TrimSpace (part0 # parts) params =
     (let part = TrimSpace part0 in
      if part = [] then parseParamsLoop ToUpper TrimSpace parts params
      else
        (let idx = IndexByte part (CHR ''='') in
         if idx < 0 then
           parseParamsLoop ToUpper TrimSpace parts (params @ [Param (ToUpper part) []])
         else
           parseParamsLoop ToUpper TrimSpace parts
             (params @ [Param (ToUpper (TrimSpace (take (nat idx) part)))
                              (TrimSpace (drop (nat idx + 1) part))])))"

definition parseParams :: "(string \<Rightarrow> string) \<Rightarrow> (string \<Rightarrow> string) \<Rightarrow> string \<Rightarrow> Param list" where
  "parseParams ToUpper TrimSpace raw =
     parseParamsLoop ToUpper TrimSpace (splitUnquoted raw (CHR '';'')) []"

text \<open>
  \<^verbatim>\<open>ParseLine\<close>: trim trailing carriage returns and line feeds; an empty line is an error;
  split at the first unquoted colon, an error when there is none; split the name from the
  parameters at the first semicolon; upper-case the trimmed name; BEGIN and END set their
  flag and look the component up; any other name is looked up in the property table and
  flagged unknown when it is not there.
\<close>

definition ParseLine ::
  "(string \<Rightarrow> string) \<Rightarrow> (string \<Rightarrow> string) \<Rightarrow> string \<Rightarrow> ics_error + ParsedLine" where
  "ParseLine ToUpper TrimSpace line0 =
     (let line = TrimRight line0 [CHR 0x0D, CHR 0x0A] in
      if line = [] then Inl ErrEmptyLine
      else
        (case splitOnFirstUnquotedColon line of
           (nameAndParams, val, found) \<Rightarrow>
             if \<not> found then Inl (ErrNoSeparator line)
             else
               (let idx = IndexByte nameAndParams (CHR '';'');
                    rawName0 = (if idx \<ge> 0 then take (nat idx) nameAndParams else nameAndParams);
                    rawParams = (if idx \<ge> 0 then drop (nat idx + 1) nameAndParams else []);
                    rawName = ToUpper (TrimSpace rawName0);
                    result = \<lparr>Property = UnknownProperty, IsBegin = False, IsEnd = False,
                              Component = UnknownComponent, RawName = rawName,
                              Params = rawParams,
                              ParsedParams =
                                (if rawParams \<noteq> [] then parseParams ToUpper TrimSpace rawParams
                                 else []),
                              Value = val, IsUnknown = False\<rparr>
                in
                  if rawName = ''BEGIN'' then
                    Inr (case componentByName (ToUpper (TrimSpace val)) of
                           Some c \<Rightarrow> result\<lparr>IsBegin := True, Component := c\<rparr>
                         | None \<Rightarrow> result\<lparr>IsBegin := True\<rparr>)
                  else if rawName = ''END'' then
                    Inr (case componentByName (ToUpper (TrimSpace val)) of
                           Some c \<Rightarrow> result\<lparr>IsEnd := True, Component := c\<rparr>
                         | None \<Rightarrow> result\<lparr>IsEnd := True\<rparr>)
                  else
                    (case propertyByName rawName of
                       Some prop \<Rightarrow> Inr (result\<lparr>Property := prop\<rparr>)
                     | None \<Rightarrow> Inr (result\<lparr>IsUnknown := True\<rparr>)))))"

text \<open>
  ASCII versions of the two library functions, for concrete runs: letters \<open>a\<close> to \<open>z\<close>
  become capitals, and the blanks trimmed are space, tab, line feed, vertical tab, form
  feed and carriage return.
\<close>

definition ascii_upper_char :: "char \<Rightarrow> char" where
  "ascii_upper_char c =
     (if 97 \<le> (of_char c :: nat) \<and> (of_char c :: nat) \<le> 122
      then char_of ((of_char c :: nat) - 32) else c)"

definition ascii_ToUpper :: "string \<Rightarrow> string" where
  "ascii_ToUpper s = map ascii_upper_char s"

definition ascii_space :: "char \<Rightarrow> bool" where
  "ascii_space c = (c \<in> set [CHR '' '', CHR 0x09, CHR 0x0A, CHR 0x0B, CHR 0x0C, CHR 0x0D])"

definition ascii_TrimSpace :: "string \<Rightarrow> string" where
  "ascii_TrimSpace s = rev (dropWhile ascii_space (rev (dropWhile ascii_space s)))"

text \<open>
  What the specification calls a separator: a colon at an index before which the number
  of double quotes is even, that is, a colon outside double-quoted regions.
\<close>

definition unquoted_colon_at :: "string \<Rightarrow> nat \<Rightarrow> bool" where
  "unquoted_colon_at s i =
     (i < length s \<and> s ! i = CHR '':'' \<and> even (count_list (take i s) (CHR 0x22)))"

definition has_unquoted_colon :: "string \<Rightarrow> bool" where
  "has_unquoted_colon s = (\<exists>i\<in>set [0..<length s]. unquoted_colon_at s i)"

section \<open>Observations and invariants\<close>

text \<open>The contents of a subtree in order: each key with its value sequence.\<close>

fun entries :: "('k, 'v) node \<Rightarrow> ('k \<times> 'v list) list" where
  "entries NilNode = []"
| "entries (Node k vs l r h) = entries l @ (k, vs) # entries r"

definition keys_of :: "('k, 'v) node \<Rightarrow> 'k list" where
  "keys_of t = map fst (entries t)"

text \<open>The height of a subtree as a tree, whatever the cached fields say.\<close>

fun trueHeight :: "('k, 'v) node \<Rightarrow> int" where
  "trueHeight NilNode = 0"
| "trueHeight (Node k vs l r h) = 1 + max (trueHeight l) (trueHeight r)"

text \<open>
  The three structural invariants of the specification, at every node: strict search-tree
  order, AVL balance, and a height field equal to one plus the larger child height.
\<close>

fun bst_order :: "('k::linorder, 'v) node \<Rightarrow> bool" where
  "bst_order NilNode = True"
| "bst_order (Node k vs l r h) =
     ((\<forall>x\<in>set (keys_of l). x < k) \<and> (\<forall>x\<in>set (keys_of r). k < x) \<and> bst_order l \<and> bst_order r)"

fun avl_balanced :: "('k, 'v) node \<Rightarrow> bool" where
  "avl_balanced NilNode = True"
| "avl_balanced (Node k vs l r h) =
     (\<bar>trueHeight l - trueHeight r\<bar> \<le> 1 \<and> avl_balanced l \<and> avl_balanced r)"

fun height_cached :: "('k, 'v) node \<Rightarrow> bool" where
  "height_cached NilNode = True"
| "height_cached (Node k vs l r h) =
     (h = 1 + max (trueHeight l) (trueHeight r) \<and> height_cached l \<and> height_cached r)"

text \<open>
  The same balance and height-cache conditions read off the cached heights of the
  children, as \<^verbatim>\<open>balance\<close> reads them.
\<close>

fun avl :: "('k, 'v) node \<Rightarrow> bool" where
  "avl NilNode = True"
| "avl (Node k vs l r h) =
     (avl l \<and> avl r \<and> \<bar>getHeight l - getHeight r\<bar> \<le> 1
      \<and> h = 1 + max (getHeight l) (getHeight r))"

text \<open>Search-tree order as strict sortedness of the keys in order.\<close>

definition ordered :: "('k::linorder, 'v) node \<Rightarrow> bool" where
  "ordered t = sorted_wrt (<) (map fst (entries t))"

text \<open>
  What insertion, deletion and lookup mean on the ordered contents: the entries below the
  key, the key with its former values followed by the new one, the entries above it;
  the entries of every other key; the values of the first entry of the key.
\<close>

definition ins_entries :: "'k::linorder \<Rightarrow> 'v \<Rightarrow> ('k \<times> 'v list) list \<Rightarrow> ('k \<times> 'v list) list" where
  "ins_entries key v es =
     filter (\<lambda>e. fst e < key) es
     @ (key, concat (map snd (filter (\<lambda>e. fst e = key) es)) @ [v])
     # filter (\<lambda>e. key < fst e) es"

definition del_entries :: "'k \<Rightarrow> ('k \<times> 'v list) list \<Rightarrow> ('k \<times> 'v list) list" where
  "del_entries key es = filter (\<lambda>e. fst e \<noteq> key) es"

definition lookup :: "'k \<Rightarrow> ('k \<times> 'v list) list \<Rightarrow> 'v list \<times> bool" where
  "lookup key es = (case map_of es key of None \<Rightarrow> ([], False) | Some vs \<Rightarrow> (vs, True))"

text \<open>
  The rendering the specification describes: the items separated by a comma and a space,
  between brackets.
\<close>

fun commaSep :: "string list \<Rightarrow> string" where
  "commaSep [] = []"
| "commaSep [x] = x"
| "commaSep (x # y # ys) = x @ '', '' @ commaSep (y # ys)"

definition bracketed :: "string list \<Rightarrow> string" where
  "bracketed xs = ''['' @ commaSep xs @ '']''"

text \<open>A tree handle whose root satisfies the cached-height invariant and the order.\<close>

definition valid :: "('k::linorder, 'v) Tree \<Rightarrow> bool" where
  "valid t = (avl (root t) \<and> ordered (root t))"

text \<open>
  The rendering of a Go \<open>int\<close> key by \<^verbatim>\<open>%v\<close>: a minus sign for a negative number and the
  decimal digits. It instantiates the formatting parameter in concrete runs.
\<close>

function fmt_nat :: "nat \<Rightarrow> string" where
  "fmt_nat n =
     (if n < 10 then [''0123456789'' ! n]
      else fmt_nat (n div 10) @ [''0123456789'' ! (n mod 10)])"
  by pat_completeness auto
termination
  by (relation "measure id") auto

declare fmt_nat.simps [simp del]

definition fmt_int :: "int \<Rightarrow> string" where
  "fmt_int i = (if i < 0 then CHR ''-'' # fmt_nat (nat (- i)) else fmt_nat (nat i))"

text \<open>
  A subtree whose height the insertion of \<open>key\<close> has just raised: \<open>key\<close> sits in a leaf,
  and every node on the way down to it is one higher on the side of \<open>key\<close>.
\<close>

fun grew :: "'k::linorder \<Rightarrow> ('k, 'v) node \<Rightarrow> bool" where
  "grew key NilNode = False"
| "grew key (Node k vs l r h) =
     (if key < k then grew key l \<and> getHeight l = getHeight r + 1
      else if k < key then grew key r \<and> getHeight r = getHeight l + 1
      else l = NilNode \<and> r = NilNode)"

text \<open>
  The only fact about cached heights that the nil checks of \<^verbatim>\<open>balance\<close> rely on: no
  cached height is negative. It asks nothing of balance, of order, or of the cached
  heights being right.
\<close>

fun heights_nonneg :: "('k, 'v) node \<Rightarrow> bool" where
  "heights_nonneg NilNode = True"
| "heights_nonneg (Node k vs l r h) = (0 \<le> h \<and> heights_nonneg l \<and> heights_nonneg r)"





section \<open>The same code on a store of shared nodes\<close>





























section \<open>The balance and height invariant\<close>

lemma avl_height_nonneg: "avl t \<Longrightarrow> 0 \<le> getHeight t"
  by (induction t) auto

lemma avl_height_pos: "avl (Node k vs l r h) \<Longrightarrow> 1 \<le> h"
  using avl_height_nonneg[of l] avl_height_nonneg[of r] by auto

lemma getHeight_zero_iff: "avl t \<Longrightarrow> getHeight t = 0 \<longleftrightarrow> t = NilNode"
  by (cases t) (use avl_height_pos in fastforce)+

lemma balance_entries: "balance n = Inr n' \<Longrightarrow> entries n' = entries n"
  apply (cases n)
  apply (simp add: balance_def)
  subgoal for k vs l r h
    apply (cases l; cases r)
    apply (auto simp: balance_def Let_def split: if_splits sum.splits node.splits elim!: rotateRight.elims rotateLeft.elims)
    done
  done


lemma balance_noop:
  assumes "\<bar>getHeight l - getHeight r\<bar> \<le> 1"
  shows "balance (Node k vs l r h) = Inr (Node k vs l r (1 + max (getHeight l) (getHeight r)))"
  using assms by (auto simp: balance_def Let_def)

lemma balance_left_heavy:
  assumes "avl l" "avl r" "getHeight l = getHeight r + 2"
  shows "\<exists>t'. balance (Node k vs l r h) = Inr t' \<and> avl t' \<and>
           getHeight t' = (if balanceFactor l = 0 then getHeight r + 3 else getHeight r + 2)"
proof (cases l)
  case NilNode
  with assms avl_height_nonneg[of r] show ?thesis by simp
next
  case (Node kx vx xl xr hx)
  note l = this
  show ?thesis
  proof (cases "getHeight xl < getHeight xr")
    case False
    with assms l show ?thesis
      by (auto simp: balance_def Let_def max_def split: if_splits)
  next
    case True
    with assms l avl_height_nonneg[of xl] obtain kz vz zl zr hz where xr: "xr = Node kz vz zl zr hz"
      by (cases xr) auto
    with True assms l show ?thesis
      by (auto simp: balance_def Let_def max_def split: if_splits)
  qed
qed

lemma balance_right_heavy:
  assumes "avl l" "avl r" "getHeight r = getHeight l + 2"
  shows "\<exists>t'. balance (Node k vs l r h) = Inr t' \<and> avl t' \<and>
           getHeight t' = (if balanceFactor r = 0 then getHeight l + 3 else getHeight l + 2)"
proof (cases r)
  case NilNode
  with assms avl_height_nonneg[of l] show ?thesis by simp
next
  case (Node ky vy yl yr hy)
  note r = this
  show ?thesis
  proof (cases "getHeight yl > getHeight yr")
    case False
    with assms r show ?thesis
      by (auto simp: balance_def Let_def max_def split: if_splits)
  next
    case True
    with assms r avl_height_nonneg[of yr] obtain kz vz zl zr hz where yl: "yl = Node kz vz zl zr hz"
      by (cases yl) auto
    with True assms r show ?thesis
      by (auto simp: balance_def Let_def max_def split: if_splits)
  qed
qed


lemma balance_avl_noop: "avl l \<Longrightarrow> avl r \<Longrightarrow> \<bar>getHeight l - getHeight r\<bar> \<le> 1 \<Longrightarrow>
   avl (Node k vs l r (1 + max (getHeight l) (getHeight r)))"
  by simp

lemma insert_n_avl:
  "avl t \<Longrightarrow> \<exists>t'. insert_n key v t = Inr t' \<and> avl t' \<and> t' \<noteq> NilNode \<and>
      (getHeight t' = getHeight t \<or> getHeight t' = getHeight t + 1)"
proof (induction t)
  case NilNode
  show ?case by (simp add: createNode_def)
next
  case (Node k vs l r h)
  from Node.prems have al: "avl l" and ar: "avl r"
    and bal: "\<bar>getHeight l - getHeight r\<bar> \<le> 1" and h: "h = 1 + max (getHeight l) (getHeight r)"
    by auto
  consider (lt) "key < k" | (gt) "k < key" | (eq) "key = k" by (meson less_linear)
  then show ?case
  proof cases
    case eq
    with Node.prems show ?thesis by simp
  next
    case lt
    from Node.IH(1)[OF al] obtain l' where l': "insert_n key v l = Inr l'" "avl l'" "l' \<noteq> NilNode"
      "getHeight l' = getHeight l \<or> getHeight l' = getHeight l + 1" by blast
    show ?thesis
    proof (cases "\<bar>getHeight l' - getHeight r\<bar> \<le> 1")
      case True
      with lt l' ar bal h show ?thesis
        by (auto simp: balance_noop)
    next
      case False
      with l' bal have hh: "getHeight l' = getHeight r + 2" by linarith
      from balance_left_heavy[OF l'(2) ar hh, of k vs h] obtain t' where
        "balance (Node k vs l' r h) = Inr t'" "avl t'"
        "getHeight t' = (if balanceFactor l' = 0 then getHeight r + 3 else getHeight r + 2)" by blast
      with lt l' hh bal h avl_height_nonneg[OF ar] getHeight_zero_iff[of t'] show ?thesis
        by (auto split: if_splits)
    qed
  next
    case gt
    from Node.IH(2)[OF ar] obtain r' where r': "insert_n key v r = Inr r'" "avl r'" "r' \<noteq> NilNode"
      "getHeight r' = getHeight r \<or> getHeight r' = getHeight r + 1" by blast
    show ?thesis
    proof (cases "\<bar>getHeight l - getHeight r'\<bar> \<le> 1")
      case True
      with gt r' al bal h show ?thesis
        by (auto simp: balance_noop)
    next
      case False
      with r' bal have hh: "getHeight r' = getHeight l + 2" by linarith
      from balance_right_heavy[OF al r'(2) hh, of k vs h] obtain t' where
        "balance (Node k vs l r' h) = Inr t'" "avl t'"
        "getHeight t' = (if balanceFactor r' = 0 then getHeight l + 3 else getHeight l + 2)" by blast
      with gt r' hh bal h avl_height_nonneg[OF al] getHeight_zero_iff[of t'] show ?thesis
        by (auto split: if_splits)
    qed
  qed
qed


lemma minValueNode_total:
  "t \<noteq> NilNode \<Longrightarrow> \<exists>tk tvs tr th. minValueNode t = Inr (Node tk tvs NilNode tr th)"
  by (induction t rule: minValueNode.induct) auto

lemma balance_after_shrink_left:
  assumes "avl l'" "avl r" "\<bar>getHeight l - getHeight r\<bar> \<le> 1"
    "getHeight l' = getHeight l \<or> getHeight l' = getHeight l - 1"
  shows "\<exists>t'. balance (Node k vs l' r h) = Inr t' \<and> avl t' \<and>
     (getHeight t' = 1 + max (getHeight l) (getHeight r) \<or> getHeight t' = max (getHeight l) (getHeight r))"
proof (cases "\<bar>getHeight l' - getHeight r\<bar> \<le> 1")
  case True
  with assms show ?thesis by (auto simp: balance_noop)
next
  case False
  with assms have hh: "getHeight r = getHeight l' + 2" by linarith
  from balance_right_heavy[OF assms(1,2) hh, of k vs h] assms hh show ?thesis
    by (auto split: if_splits)
qed

lemma balance_after_shrink_right:
  assumes "avl l" "avl r'" "\<bar>getHeight l - getHeight r\<bar> \<le> 1"
    "getHeight r' = getHeight r \<or> getHeight r' = getHeight r - 1"
  shows "\<exists>t'. balance (Node k vs l r' h) = Inr t' \<and> avl t' \<and>
     (getHeight t' = 1 + max (getHeight l) (getHeight r) \<or> getHeight t' = max (getHeight l) (getHeight r))"
proof (cases "\<bar>getHeight l - getHeight r'\<bar> \<le> 1")
  case True
  with assms show ?thesis by (auto simp: balance_noop)
next
  case False
  with assms have hh: "getHeight l = getHeight r' + 2" by linarith
  from balance_left_heavy[OF assms(1,2) hh, of k vs h] assms hh show ?thesis
    by (auto split: if_splits)
qed

lemma delete_n_avl:
  "avl t \<Longrightarrow> \<exists>t'. delete_n key t = Inr t' \<and> avl t' \<and>
      (getHeight t' = getHeight t \<or> getHeight t' = getHeight t - 1)"
proof (induction t arbitrary: key)
  case NilNode
  show ?case by simp
next
  case (Node k vs l r h)
  from Node.prems have al: "avl l" and ar: "avl r"
    and bal: "\<bar>getHeight l - getHeight r\<bar> \<le> 1" and h: "h = 1 + max (getHeight l) (getHeight r)"
    by auto
  consider (lt) "key < k" | (gt) "k < key" | (eq) "key = k" by (meson less_linear)
  then show ?case
  proof cases
    case lt
    from Node.IH(1)[OF al, of key] obtain l' where l': "delete_n key l = Inr l'" "avl l'"
      "getHeight l' = getHeight l \<or> getHeight l' = getHeight l - 1" by blast
    from balance_after_shrink_left[OF l'(2) ar bal l'(3), of k vs h] lt l' h show ?thesis
      by auto
  next
    case gt
    from Node.IH(2)[OF ar, of key] obtain r' where r': "delete_n key r = Inr r'" "avl r'"
      "getHeight r' = getHeight r \<or> getHeight r' = getHeight r - 1" by blast
    from balance_after_shrink_right[OF al r'(2) bal r'(3), of k vs h] gt r' h show ?thesis
      by auto
  next
    case eq
    show ?thesis
    proof (cases "l = NilNode \<or> r = NilNode")
      case True
      with eq al ar bal h avl_height_nonneg[OF al] avl_height_nonneg[OF ar] show ?thesis
        by (auto simp: getHeight_zero_iff)
    next
      case False
      then obtain tk tvs tr th where m: "minValueNode r = Inr (Node tk tvs NilNode tr th)"
        using minValueNode_total[of r] by blast
      from Node.IH(2)[OF ar, of tk] obtain r' where r': "delete_n tk r = Inr r'" "avl r'"
        "getHeight r' = getHeight r \<or> getHeight r' = getHeight r - 1" by blast
      from balance_after_shrink_right[OF al r'(2) bal r'(3), of tk tvs h] eq False m r' h show ?thesis
        by auto
    qed
  qed
qed


lemma ordered_Node:
  "ordered (Node k vs l r h) \<longleftrightarrow>
     ordered l \<and> ordered r \<and> (\<forall>e\<in>set (entries l). fst e < k) \<and> (\<forall>e\<in>set (entries r). k < fst e)"
  by (fastforce simp: ordered_def sorted_wrt_append)

lemma ordered_Nil: "ordered NilNode"
  by (simp add: ordered_def)

lemma filters_above:
  fixes key :: "'k::linorder"
  assumes "\<forall>e\<in>set es. key < fst e"
  shows "filter (\<lambda>e. fst e < key) es = []" "filter (\<lambda>e. fst e = key) es = []"
    "filter (\<lambda>e. key < fst e) es = es" "filter (\<lambda>e. fst e \<noteq> key) es = es"
  using assms by (auto simp: filter_empty_conv filter_id_conv)

lemma filters_below:
  fixes key :: "'k::linorder"
  assumes "\<forall>e\<in>set es. fst e < key"
  shows "filter (\<lambda>e. fst e < key) es = es" "filter (\<lambda>e. fst e = key) es = []"
    "filter (\<lambda>e. key < fst e) es = []" "filter (\<lambda>e. fst e \<noteq> key) es = es"
  using assms by (auto simp: filter_empty_conv filter_id_conv)

lemma insert_n_lt:
  "key < k \<Longrightarrow> insert_n key v (Node k vs l r h) =
     (case insert_n key v l of Inl e \<Rightarrow> Inl e | Inr l' \<Rightarrow> balance (Node k vs l' r h))"
  by simp

lemma insert_n_gt:
  "k < key \<Longrightarrow> insert_n key v (Node k vs l r h) =
     (case insert_n key v r of Inl e \<Rightarrow> Inl e | Inr r' \<Rightarrow> balance (Node k vs l r' h))"
  by (auto dest: less_asym)

lemma insert_n_eq: "insert_n k v (Node k vs l r h) = Inr (Node k (vs @ [v]) l r h)"
  by simp

lemma delete_n_lt:
  "key < k \<Longrightarrow> delete_n key (Node k vs l r h) =
     (case delete_n key l of Inl e \<Rightarrow> Inl e | Inr l' \<Rightarrow> balance (Node k vs l' r h))"
  by simp

lemma delete_n_gt:
  "k < key \<Longrightarrow> delete_n key (Node k vs l r h) =
     (case delete_n key r of Inl e \<Rightarrow> Inl e | Inr r' \<Rightarrow> balance (Node k vs l r' h))"
  by (auto dest: less_asym)

lemma delete_n_eq:
  "delete_n k (Node k vs l r h) =
     (if l = NilNode then Inr r
      else if r = NilNode then Inr l
      else
        (case minValueNode r of
           Inl e \<Rightarrow> Inl e
         | Inr NilNode \<Rightarrow> Inl NilDereference
         | Inr (Node tk tvs tleft tright th) \<Rightarrow>
             (case delete_n tk r of
                Inl e \<Rightarrow> Inl e
              | Inr r' \<Rightarrow> balance (Node tk tvs l r' h))))"
  by simp

lemma insert_n_entries:
  "ordered t \<Longrightarrow> insert_n key v t = Inr t' \<Longrightarrow> entries t' = ins_entries key v (entries t)"
proof (induction t arbitrary: t')
  case NilNode
  then show ?case by (auto simp: createNode_def ins_entries_def)
next
  case (Node k vs l r h)
  from Node.prems(1) have ol: "ordered l" and or: "ordered r"
    and lo: "\<forall>e\<in>set (entries l). fst e < k" and hi: "\<forall>e\<in>set (entries r). k < fst e"
    by (simp_all add: ordered_Node)
  consider (lt) "key < k" | (gt) "k < key" | (eq) "key = k" by (meson less_linear)
  then show ?case
  proof cases
    case lt
    with Node.prems(2) obtain l' where l': "insert_n key v l = Inr l'" and b: "balance (Node k vs l' r h) = Inr t'"
      by (auto simp only: insert_n_lt split: sum.splits)
    from lt hi have f: "\<forall>e\<in>set (entries r). key < fst e" by auto
    from balance_entries[OF b] Node.IH(1)[OF ol l'] lt show ?thesis
      by (auto simp: ins_entries_def filters_above[OF f])
  next
    case gt
    with Node.prems(2) obtain r' where r': "insert_n key v r = Inr r'" and b: "balance (Node k vs l r' h) = Inr t'"
      by (auto simp only: insert_n_gt split: sum.splits)
    from gt lo have f: "\<forall>e\<in>set (entries l). fst e < key" by auto
    from balance_entries[OF b] Node.IH(2)[OF or r'] gt show ?thesis
      by (auto simp: ins_entries_def filters_below[OF f])
  next
    case eq
    from Node.prems(2)[unfolded eq insert_n_eq] show ?thesis unfolding eq
      by (auto simp: ins_entries_def filters_below[OF lo] filters_above[OF hi])
  qed
qed

lemma minValueNode_entries:
  "minValueNode t = Inr (Node tk tvs tleft tr th) \<Longrightarrow> \<exists>rest. entries t = (tk, tvs) # rest"
proof (induction t rule: minValueNode.induct)
  case 1
  then show ?case by simp
next
  case (2 k vs r h)
  then show ?case by simp
next
  case (3 k vs lk lvs ll lr lh r h)
  then obtain rest where "entries (Node lk lvs ll lr lh) = (tk, tvs) # rest" by auto
  then have "entries (Node k vs (Node lk lvs ll lr lh) r h) = (tk, tvs) # (rest @ (k, vs) # entries r)"
    by simp
  then show ?case by blast
qed

lemma delete_n_entries:
  "ordered t \<Longrightarrow> delete_n key t = Inr t' \<Longrightarrow> entries t' = del_entries key (entries t)"
proof (induction t arbitrary: key t')
  case NilNode
  then show ?case by (auto simp: del_entries_def)
next
  case (Node k vs l r h)
  from Node.prems(1) have ol: "ordered l" and or: "ordered r"
    and lo: "\<forall>e\<in>set (entries l). fst e < k" and hi: "\<forall>e\<in>set (entries r). k < fst e"
    by (simp_all add: ordered_Node)
  consider (lt) "key < k" | (gt) "k < key" | (eq) "key = k" by (meson less_linear)
  then show ?case
  proof cases
    case lt
    with Node.prems(2) obtain l' where l': "delete_n key l = Inr l'" and b: "balance (Node k vs l' r h) = Inr t'"
      by (auto simp only: delete_n_lt split: sum.splits)
    from lt hi have f: "\<forall>e\<in>set (entries r). key < fst e" by auto
    from balance_entries[OF b] Node.IH(1)[OF ol l'] lt show ?thesis
      by (auto simp: del_entries_def filters_above[OF f])
  next
    case gt
    with Node.prems(2) obtain r' where r': "delete_n key r = Inr r'" and b: "balance (Node k vs l r' h) = Inr t'"
      by (auto simp only: delete_n_gt split: sum.splits)
    from gt lo have f: "\<forall>e\<in>set (entries l). fst e < key" by auto
    from balance_entries[OF b] Node.IH(2)[OF or r'] gt show ?thesis
      by (auto simp: del_entries_def filters_below[OF f])
  next
    case eq
    note d = Node.prems(2)[unfolded eq delete_n_eq]
    show ?thesis
    proof (cases "l = NilNode \<or> r = NilNode")
      case True
      with d show ?thesis unfolding eq
        by (auto simp: del_entries_def filters_below[OF lo] filters_above[OF hi] split: if_splits)
    next
      case False
      with d obtain tk tvs tleft tr th r' where
        m: "minValueNode r = Inr (Node tk tvs tleft tr th)" and
        r': "delete_n tk r = Inr r'" and b: "balance (Node tk tvs l r' h) = Inr t'"
        by (auto split: sum.splits node.splits)
      from minValueNode_entries[OF m] obtain rest where rest: "entries r = (tk, tvs) # rest" by blast
      with or have "\<forall>e\<in>set rest. tk < fst e" by (auto simp: ordered_def)
      note h = filters_above[OF this]
      from hi rest have hi': "\<forall>e\<in>set rest. k < fst e" and ktk: "k < tk" by simp_all
      from balance_entries[OF b] Node.IH(2)[OF or r'] rest ktk show ?thesis unfolding eq
        by (auto simp: del_entries_def filters_below[OF lo] filters_above[OF hi'] h)
    qed
  qed
qed

lemma map_of_below:
  fixes key :: "'k::linorder"
  shows "\<forall>e\<in>set es. fst e < key \<Longrightarrow> map_of es key = None"
  by (induction es) auto

lemma map_of_above:
  fixes key :: "'k::linorder"
  shows "\<forall>e\<in>set es. key < fst e \<Longrightarrow> map_of es key = None"
  by (induction es) auto

lemma find_n_entries:
  "ordered t \<Longrightarrow> find_n key t = lookup key (entries t)"
proof (induction t)
  case NilNode
  show ?case by (simp add: lookup_def)
next
  case (Node k vs l r h)
  from Node.prems(1) have ol: "ordered l" and or: "ordered r"
    and lo: "\<forall>e\<in>set (entries l). fst e < k" and hi: "\<forall>e\<in>set (entries r). k < fst e"
    by (simp_all add: ordered_Node)
  consider (lt) "key < k" | (gt) "k < key" | (eq) "key = k" by (meson less_linear)
  then show ?case
  proof cases
    case lt
    from lt hi have "\<forall>e\<in>set (entries r). key < fst e" by auto
    from map_of_above[OF this] Node.IH(1)[OF ol] lt show ?thesis
      by (auto simp: lookup_def map_add_def split: option.splits)
  next
    case gt
    from gt lo have "\<forall>e\<in>set (entries l). fst e < key" by auto
    from map_of_below[OF this] Node.IH(2)[OF or] gt show ?thesis
      by (auto simp: lookup_def map_add_def split: option.splits)
  next
    case eq
    with lo have "\<forall>e\<in>set (entries l). fst e < key" by auto
    from map_of_below[OF this] eq show ?thesis
      by (auto simp: lookup_def map_add_def split: option.splits)
  qed
qed

section \<open>Invariants of reachable trees\<close>

lemma height_cached_getHeight: "height_cached t \<Longrightarrow> getHeight t = trueHeight t"
  by (cases t) auto

lemma avl_iff_spec: "avl t \<longleftrightarrow> avl_balanced t \<and> height_cached t"
proof (induction t)
  case NilNode
  show ?case by simp
next
  case (Node k vs l r h)
  show ?case
  proof
    assume a: "avl (Node k vs l r h)"
    with Node have "height_cached l" "height_cached r" by auto
    with a Node show "avl_balanced (Node k vs l r h) \<and> height_cached (Node k vs l r h)"
      by (auto simp: height_cached_getHeight)
  next
    assume "avl_balanced (Node k vs l r h) \<and> height_cached (Node k vs l r h)"
    with Node show "avl (Node k vs l r h)"
      by (auto simp: height_cached_getHeight)
  qed
qed

lemma bst_order_iff_ordered: "bst_order t \<longleftrightarrow> ordered t"
  by (induction t) (auto simp: ordered_Node ordered_Nil keys_of_def)

lemma sorted_ins_entries:
  assumes "sorted_wrt (<) (map fst es)"
  shows "sorted_wrt (<) (map fst (ins_entries key v es))"
proof -
  have "sorted_wrt (<) (map fst (filter (\<lambda>e. fst e < key) es))"
    "sorted_wrt (<) (map fst (filter (\<lambda>e. key < fst e) es))"
    using assms by (simp_all add: sorted_wrt_map sorted_wrt_filter)
  then show ?thesis
    by (auto simp: ins_entries_def sorted_wrt_append)
qed

lemma sorted_del_entries:
  "sorted_wrt (<) (map fst es) \<Longrightarrow> sorted_wrt (<) (map fst (del_entries key es))"
  by (simp add: del_entries_def sorted_wrt_map sorted_wrt_filter)

lemma insert_n_ordered: "ordered t \<Longrightarrow> insert_n key v t = Inr t' \<Longrightarrow> ordered t'"
  using insert_n_entries[of t key v t'] sorted_ins_entries[of "entries t" key v]
  by (simp add: ordered_def)

lemma delete_n_ordered: "ordered t \<Longrightarrow> delete_n key t = Inr t' \<Longrightarrow> ordered t'"
  using delete_n_entries[of t key t'] sorted_del_entries[of "entries t" key]
  by (simp add: ordered_def)

lemma Insert_valid: "valid t \<Longrightarrow> \<exists>t'. Insert key v t = Inr t' \<and> valid t' \<and> root t' \<noteq> NilNode"
  using insert_n_avl[of "root t" key v] insert_n_ordered[of "root t" key v]
  by (auto simp: valid_def Insert_def)

lemma Delete_valid: "valid t \<Longrightarrow> \<exists>t'. Delete key t = Inr t' \<and> valid t'"
  using delete_n_avl[of "root t" key] delete_n_ordered[of "root t" key]
  by (auto simp: valid_def Delete_def)

lemma New_valid: "valid New"
  by (simp add: valid_def New_def ordered_Nil)

lemma apply_mutation_valid: "valid t \<Longrightarrow> \<exists>t'. apply_mutation m t = Inr t' \<and> valid t'"
  using Insert_valid Delete_valid by (cases m) (fastforce+)

lemma run_valid: "valid t \<Longrightarrow> \<exists>t'. run ms t = Inr t' \<and> valid t'"
proof (induction ms arbitrary: t)
  case Nil
  then show ?case by simp
next
  case (Cons m ms)
  from apply_mutation_valid[OF Cons.prems, of m] obtain t1 where
    "apply_mutation m t = Inr t1" "valid t1" by blast
  with Cons.IH[of t1] show ?case by simp
qed

section \<open>Lookup, size and the handle layer\<close>

lemma map_of_filter_key:
  "map_of (filter (\<lambda>e. Q (fst e)) es) j = (if Q j then map_of es j else None)"
  by (induction es) auto

lemma lookup_ins_other:
  assumes "j \<noteq> key"
  shows "lookup j (ins_entries key v es) = lookup j es"
proof -
  have "map_of (ins_entries key v es) j = map_of es j"
    using assms map_of_filter_key[of "\<lambda>x. x < key" es j] map_of_filter_key[of "\<lambda>x. key < x" es j]
    by (auto simp: ins_entries_def map_add_def split: option.splits)
  then show ?thesis by (simp add: lookup_def)
qed

lemma filter_key_sorted:
  fixes es :: "('k::linorder \<times> 'v list) list"
  shows "sorted_wrt (<) (map fst es) \<Longrightarrow>
     filter (\<lambda>e. fst e = key) es = (case map_of es key of None \<Rightarrow> [] | Some vs \<Rightarrow> [(key, vs)])"
proof (induction es)
  case Nil
  show ?case by simp
next
  case (Cons e es)
  then have "\<forall>x\<in>set es. fst e < fst x" by simp
  from filters_above(2)[OF this] Cons show ?case
    by (cases e) auto
qed

lemma lookup_ins_same:
  assumes "sorted_wrt (<) (map fst es)"
  shows "lookup key (ins_entries key v es) = (fst (lookup key es) @ [v], True)"
proof -
  have "map_of (filter (\<lambda>e. fst e < key) es) key = None"
    using map_of_filter_key[of "\<lambda>x. x < key" es key] by simp
  then show ?thesis
    by (simp add: lookup_def ins_entries_def map_add_def filter_key_sorted[OF assms] split: option.splits)
qed

lemma lookup_del_other: "j \<noteq> key \<Longrightarrow> lookup j (del_entries key es) = lookup j es"
  using map_of_filter_key[of "\<lambda>x. x \<noteq> key" es j] by (simp add: lookup_def del_entries_def)

lemma lookup_del_same: "lookup key (del_entries key es) = ([], False)"
  using map_of_filter_key[of "\<lambda>x. x \<noteq> key" es key] by (simp add: lookup_def del_entries_def)

lemma getSize_entries: "getSize t = int (length (entries t))"
  by (induction t) auto

lemma length_three_way:
  fixes key :: "'k::linorder"
  shows "length es = length (filter (\<lambda>e. fst e < key) es) + length (filter (\<lambda>e. fst e = key) es)
           + length (filter (\<lambda>e. key < fst e) es)"
proof (induction es)
  case Nil
  show ?case by simp
next
  case (Cons e es)
  consider (lt) "fst e < key" | (eq) "fst e = key" | (gt) "key < fst e" by (meson less_linear)
  then show ?case
  proof cases
    case lt
    then have "fst e \<noteq> key" "\<not> key < fst e" by auto
    with lt Cons show ?thesis by simp
  next
    case eq
    with Cons show ?thesis by simp
  next
    case gt
    then have "fst e \<noteq> key" "\<not> fst e < key" by auto
    with gt Cons show ?thesis by simp
  qed
qed

lemma length_ins_entries:
  assumes "sorted_wrt (<) (map fst es)"
  shows "length (ins_entries key v es) = (if snd (lookup key es) then length es else length es + 1)"
  using length_three_way[of es key]
  by (simp add: ins_entries_def filter_key_sorted[OF assms] lookup_def split: option.splits)

lemma Find_root: "Find key t = find_n key (root t)"
  by (cases "root t") (simp_all add: Find_def)

lemma Contains_root: "Contains key t = snd (find_n key (root t))"
  by (cases "root t") (simp_all add: Contains_def contains_n_def)

lemma Size_root: "Size t = getSize (root t)"
  by (cases "root t") (simp_all add: Size_def)

lemma Height_root: "Height t = getHeight (root t)"
  by (cases "root t") (simp_all add: Height_def)

lemma delete_n_absent:
  "avl t \<Longrightarrow> \<not> snd (find_n key t) \<Longrightarrow> delete_n key t = Inr t"
proof (induction t)
  case NilNode
  show ?case by simp
next
  case (Node k vs l r h)
  from Node.prems(2) have ne: "k \<noteq> key" by (auto split: if_splits)
  from Node.prems(1) have al: "avl l" and ar: "avl r" by simp_all
  from Node.prems(1) have b: "balance (Node k vs l r h) = Inr (Node k vs l r h)"
    by (simp add: balance_noop)
  from ne consider (lt) "key < k" | (gt) "k < key" by (meson less_linear)
  then show ?case
  proof cases
    case lt
    with Node.prems(2) ne have "\<not> snd (find_n key l)" by simp
    from Node.IH(1)[OF al this] lt show ?thesis by (simp add: delete_n_lt b del: delete_n.simps)
  next
    case gt
    then have "\<not> key < k" by auto
    with Node.prems(2) ne have "\<not> snd (find_n key r)" by simp
    from Node.IH(2)[OF ar this] gt show ?thesis by (simp add: delete_n_gt b del: delete_n.simps)
  qed
qed

lemma Delete_absent:
  "valid t \<Longrightarrow> \<not> Contains key t \<Longrightarrow> Delete key t = Inr t"
  using delete_n_absent[of "root t" key] by (cases t) (auto simp: valid_def Contains_root Delete_def)

lemma run_New_valid: "run ms New = Inr t \<Longrightarrow> valid t"
  using run_valid[OF New_valid, of ms] by auto

lemma Insert_entries:
  assumes "valid t"
  shows "\<exists>t'. Insert key v t = Inr t' \<and> valid t' \<and>
           entries (root t') = ins_entries key v (entries (root t))"
proof -
  from Insert_valid[OF assms, of key v] obtain t' where t': "Insert key v t = Inr t'" "valid t'"
    by blast
  then have "insert_n key v (root t) = Inr (root t')"
    by (auto simp: Insert_def split: sum.splits)
  with assms have "entries (root t') = ins_entries key v (entries (root t))"
    by (simp add: valid_def insert_n_entries)
  with t' show ?thesis by blast
qed

lemma Delete_entries:
  assumes "valid t"
  shows "\<exists>t'. Delete key t = Inr t' \<and> valid t' \<and>
           entries (root t') = del_entries key (entries (root t))"
proof -
  from Delete_valid[OF assms, of key] obtain t' where t': "Delete key t = Inr t'" "valid t'"
    by blast
  have "entries (root t') = del_entries key (entries (root t))"
  proof (cases "root t = NilNode")
    case True
    with t' show ?thesis by (simp add: Delete_def del_entries_def)
  next
    case False
    with t' have "delete_n key (root t) = Inr (root t')"
      by (auto simp: Delete_def split: sum.splits)
    with assms show ?thesis by (simp add: valid_def delete_n_entries)
  qed
  with t' show ?thesis by blast
qed

lemma Find_entries: "valid t \<Longrightarrow> Find key t = lookup key (entries (root t))"
  by (simp add: Find_root valid_def find_n_entries)

lemma findNode_subtree:
  "findNode key t = (n, True) \<Longrightarrow>
     set (entries n) \<subseteq> set (entries t) \<and> (avl t \<longrightarrow> avl n) \<and> (ordered t \<longrightarrow> ordered n)"
proof (induction t)
  case NilNode
  then show ?case by simp
next
  case (Node k vs l r h)
  show ?case
  proof (cases "k = key")
    case True
    with Node.prems show ?thesis by auto
  next
    case False
    show ?thesis
    proof (cases "key < k")
      case True
      with False Node.prems have "findNode key l = (n, True)" by simp
      from Node.IH(1)[OF this] show ?thesis by (auto simp: ordered_Node)
    next
      case g: False
      with False Node.prems have "findNode key r = (n, True)" by simp
      from Node.IH(2)[OF this] show ?thesis by (auto simp: ordered_Node)
    qed
  qed
qed

lemma lookup_member:
  fixes es :: "('k::linorder \<times> 'v list) list"
  assumes "sorted_wrt (<) (map fst es)" and "(k, vs) \<in> set es"
  shows "lookup k es = (vs, True)"
proof -
  from assms(1) have "distinct (map fst es)"
    using strict_sorted_iff[of "map fst es"] by simp
  with assms(2) have "map_of es k = Some vs" by simp
  then show ?thesis by (simp add: lookup_def)
qed

lemma Contains_Find: "Contains k t = snd (Find k t)"
  by (simp add: Contains_root Find_root)

section \<open>Rendering\<close>

lemma traverseString_keys:
  "traverseString fmtv t sb = sb @ concat (map (\<lambda>k. fmtv k @ '', '') (keys_of t))"
  by (induction t arbitrary: sb) (simp_all add: keys_of_def)

lemma concat_sep: "xs \<noteq> [] \<Longrightarrow> concat (map (\<lambda>s. s @ '', '') xs) = commaSep xs @ '', ''"
  by (induction xs rule: commaSep.induct) simp_all

lemma TrimSuffix_append: "TrimSuffix (a @ suf) suf = a"
  by (simp add: TrimSuffix_def)

lemma String_n_bracketed:
  assumes "t \<noteq> NilNode"
  shows "String_n fmtv t = bracketed (map fmtv (keys_of t))"
proof -
  from assms obtain k vs l r h where t: "t = Node k vs l r h" by (cases t) auto
  then have ne: "map fmtv (keys_of t) \<noteq> []" by (simp add: keys_of_def)
  have "traverseString fmtv t ''['' = ''['' @ concat (map (\<lambda>s. s @ '', '') (map fmtv (keys_of t)))"
    by (simp add: traverseString_keys comp_def)
  also have "\<dots> = (''['' @ commaSep (map fmtv (keys_of t))) @ '', ''"
    by (simp only: concat_sep[OF ne] append_assoc)
  finally have "TrimSuffix (traverseString fmtv t ''['') '', '' = ''['' @ commaSep (map fmtv (keys_of t))"
    by (simp only: TrimSuffix_append)
  with t show ?thesis by (simp add: bracketed_def)
qed

section \<open>Inserting a new key and deleting it again\<close>

lemma grew_unbalanced:
  assumes "grew key (Node k vs l r h)" "avl (Node k vs l r h)"
  shows "(l = NilNode \<and> r = NilNode \<and> h = 1) \<or> getHeight l \<noteq> getHeight r"
  using assms by (auto split: if_splits)

lemma delete_n_grew:
  "avl t \<Longrightarrow> grew key t \<Longrightarrow> \<exists>t'. delete_n key t = Inr t' \<and> avl t' \<and> getHeight t' = getHeight t - 1"
proof (induction t)
  case NilNode
  then show ?case by simp
next
  case (Node k vs l r h)
  from Node.prems(1) have al: "avl l" and ar: "avl r"
    and h: "h = 1 + max (getHeight l) (getHeight r)" by auto
  consider (lt) "key < k" | (gt) "k < key" | (eq) "key = k" by (meson less_linear)
  then show ?case
  proof cases
    case lt
    with Node.prems(2) have g: "grew key l" "getHeight l = getHeight r + 1" by auto
    from Node.IH(1)[OF al g(1)] obtain l' where
      l': "delete_n key l = Inr l'" "avl l'" "getHeight l' = getHeight l - 1" by blast
    with g(2) have "\<bar>getHeight l' - getHeight r\<bar> \<le> 1" by simp
    from balance_noop[OF this, of k vs h] l' ar g(2) h lt show ?thesis
      by (simp add: delete_n_lt del: delete_n.simps)
  next
    case gt
    then have "\<not> key < k" by auto
    with gt Node.prems(2) have g: "grew key r" "getHeight r = getHeight l + 1" by auto
    from Node.IH(2)[OF ar g(1)] obtain r' where
      r': "delete_n key r = Inr r'" "avl r'" "getHeight r' = getHeight r - 1" by blast
    with g(2) have "\<bar>getHeight l - getHeight r'\<bar> \<le> 1" by simp
    from balance_noop[OF this, of k vs h] r' al g(2) h gt show ?thesis
      by (simp add: delete_n_gt del: delete_n.simps)
  next
    case eq
    with Node.prems show ?thesis by auto
  qed
qed

lemma insert_n_grew:
  "avl t \<Longrightarrow> \<not> snd (find_n key t) \<Longrightarrow> insert_n key v t = Inr t' \<Longrightarrow>
     getHeight t' = getHeight t + 1 \<Longrightarrow> grew key t'"
proof (induction t arbitrary: t')
  case NilNode
  then show ?case by (auto simp: createNode_def)
next
  case (Node k vs l r h)
  from Node.prems(1) have al: "avl l" and ar: "avl r"
    and bal: "\<bar>getHeight l - getHeight r\<bar> \<le> 1"
    and h: "h = 1 + max (getHeight l) (getHeight r)" by auto
  from Node.prems(2) have ne: "k \<noteq> key" by (auto split: if_splits)
  then consider (lt) "key < k" | (gt) "k < key" by (meson less_linear)
  then show ?case
  proof cases
    case lt
    with Node.prems(2) ne have nf: "\<not> snd (find_n key l)" by simp
    from insert_n_avl[OF al, of key v] obtain l' where
      l': "insert_n key v l = Inr l'" "avl l'" "l' \<noteq> NilNode"
      "getHeight l' = getHeight l \<or> getHeight l' = getHeight l + 1" by blast
    from Node.prems(3) lt l' have b: "balance (Node k vs l' r h) = Inr t'"
      by (simp add: insert_n_lt del: insert_n.simps)
    show ?thesis
    proof (cases "\<bar>getHeight l' - getHeight r\<bar> \<le> 1")
      case True
      from b balance_noop[OF True, of k vs h]
      have t': "t' = Node k vs l' r (1 + max (getHeight l') (getHeight r))" by simp
      with Node.prems(4) h l'(4) bal True have hh: "getHeight l' = getHeight l + 1" "getHeight l' = getHeight r + 1"
        by auto
      from Node.IH(1)[OF al nf l'(1) hh(1)] hh(2) lt t' show ?thesis by simp
    next
      case False
      with l'(4) bal have hh: "getHeight l' = getHeight r + 2" "getHeight l' = getHeight l + 1" by linarith+
      from Node.IH(1)[OF al nf l'(1) hh(2)] have g: "grew key l'" .
      from l'(3) obtain kl vl ll lr hl where ln: "l' = Node kl vl ll lr hl" by (cases l') auto
      from grew_unbalanced[OF g[unfolded ln] l'(2)[unfolded ln]] hh(1) ln avl_height_nonneg[OF ar]
      have "balanceFactor l' \<noteq> 0" by auto
      with balance_left_heavy[OF l'(2) ar hh(1), of k vs h] b have "getHeight t' = getHeight r + 2" by auto
      with Node.prems(4) h hh show ?thesis by simp
    qed
  next
    case gt
    then have nlt: "\<not> key < k" by auto
    with Node.prems(2) ne have nf: "\<not> snd (find_n key r)" by simp
    from insert_n_avl[OF ar, of key v] obtain r' where
      r': "insert_n key v r = Inr r'" "avl r'" "r' \<noteq> NilNode"
      "getHeight r' = getHeight r \<or> getHeight r' = getHeight r + 1" by blast
    from Node.prems(3) gt r' have b: "balance (Node k vs l r' h) = Inr t'"
      by (simp add: insert_n_gt del: insert_n.simps)
    show ?thesis
    proof (cases "\<bar>getHeight l - getHeight r'\<bar> \<le> 1")
      case True
      from b balance_noop[OF True, of k vs h]
      have t': "t' = Node k vs l r' (1 + max (getHeight l) (getHeight r'))" by simp
      with Node.prems(4) h r'(4) bal True have hh: "getHeight r' = getHeight r + 1" "getHeight r' = getHeight l + 1"
        by auto
      from Node.IH(2)[OF ar nf r'(1) hh(1)] hh(2) gt nlt t' show ?thesis by simp
    next
      case False
      with r'(4) bal have hh: "getHeight r' = getHeight l + 2" "getHeight r' = getHeight r + 1" by linarith+
      from Node.IH(2)[OF ar nf r'(1) hh(2)] have g: "grew key r'" .
      from r'(3) obtain kr vr rl rr hr where rn: "r' = Node kr vr rl rr hr" by (cases r') auto
      from grew_unbalanced[OF g[unfolded rn] r'(2)[unfolded rn]] hh(1) rn avl_height_nonneg[OF al]
      have "balanceFactor r' \<noteq> 0" by auto
      with balance_right_heavy[OF al r'(2) hh(1), of k vs h] b have "getHeight t' = getHeight l + 2" by auto
      with Node.prems(4) h hh show ?thesis by simp
    qed
  qed
qed

lemma delete_after_grow_left:
  assumes al1: "avl l1" and ar: "avl r" and g: "grew key l1" and lt: "key < k"
    and hh: "getHeight l1 = getHeight r + 2"
    and b: "balance (Node k vs l1 r h) = Inr t1"
    and d: "delete_n key t1 = Inr t2"
  shows "getHeight t2 = getHeight r + 2"
proof -
  from g obtain kl vl ll lr hl where l1: "l1 = Node kl vl ll lr hl" by (cases l1) auto
  from al1 l1 have all: "avl ll" and alr: "avl lr"
    and hl: "hl = 1 + max (getHeight ll) (getHeight lr)" by auto
  consider (LL) "key < kl" | (LR) "kl < key" | (leaf) "key = kl" by (meson less_linear)
  then show ?thesis
  proof cases
    case leaf
    with g l1 al1 hh avl_height_nonneg[OF ar] show ?thesis by auto
  next
    case LL
    with g l1 have gl: "grew key ll" and e: "getHeight ll = getHeight lr + 1" by auto
    with hl hh l1 have hts: "getHeight ll = getHeight r + 1" "getHeight lr = getHeight r" by auto
    from b l1 hts hl have t1: "t1 = Node kl vl ll (Node k vs lr r (getHeight r + 1)) (getHeight r + 2)"
      by (auto simp: balance_def Let_def)
    from delete_n_grew[OF all gl] obtain ll2 where
      ll2: "delete_n key ll = Inr ll2" "avl ll2" "getHeight ll2 = getHeight ll - 1" by blast
    with hts have "\<bar>getHeight ll2 - getHeight (Node k vs lr r (getHeight r + 1))\<bar> \<le> 1" by simp
    from balance_noop[OF this, of kl vl "getHeight r + 2"] d t1 LL ll2 hts show ?thesis
      by (auto simp: delete_n_lt simp del: delete_n.simps)
  next
    case LR
    then have nl: "\<not> key < kl" by auto
    with LR g l1 have gr: "grew key lr" and e: "getHeight lr = getHeight ll + 1" by auto
    with hl hh l1 have hts: "getHeight lr = getHeight r + 1" "getHeight ll = getHeight r" by auto
    from gr obtain kz vz a b' hz where lr: "lr = Node kz vz a b' hz" by (cases lr) auto
    from alr lr have aa: "avl a" and ab: "avl b'"
      and hz: "hz = 1 + max (getHeight a) (getHeight b')"
      and bz: "\<bar>getHeight a - getHeight b'\<bar> \<le> 1" by auto
    from b l1 lr hts hl hz have t1: "t1 = Node kz vz (Node kl vl ll a (1 + max (getHeight ll) (getHeight a)))
         (Node k vs b' r (1 + max (getHeight b') (getHeight r)))
         (1 + max (1 + max (getHeight ll) (getHeight a)) (1 + max (getHeight b') (getHeight r)))"
      by (auto simp: balance_def Let_def)
    consider (za) "key < kz" | (zb) "kz < key" | (zz) "key = kz" by (meson less_linear)
    then show ?thesis
    proof cases
      case za
      with gr lr have ga: "grew key a" and ea: "getHeight a = getHeight b' + 1" by auto
      with hz hts lr have h2: "getHeight a = getHeight r" "getHeight b' = getHeight r - 1" by auto
      from delete_n_grew[OF aa ga] obtain a2 where
        a2: "delete_n key a = Inr a2" "avl a2" "getHeight a2 = getHeight a - 1" by blast
      with hts h2 have n1: "\<bar>getHeight ll - getHeight a2\<bar> \<le> 1" by simp
      have d1: "delete_n key (Node kl vl ll a (1 + max (getHeight ll) (getHeight a)))
          = Inr (Node kl vl ll a2 (1 + max (getHeight ll) (getHeight a2)))"
        using LR a2 balance_noop[OF n1] by (simp add: delete_n_gt del: delete_n.simps)
      from hts h2 a2
      have n2: "\<bar>getHeight (Node kl vl ll a2 (1 + max (getHeight ll) (getHeight a2)))
                 - getHeight (Node k vs b' r (1 + max (getHeight b') (getHeight r)))\<bar> \<le> 1" by simp
      from d t1 za d1 balance_noop[OF n2, of kz vz] hts h2 a2 show ?thesis
        by (auto simp: delete_n_lt simp del: delete_n.simps)
    next
      case zb
      then have "\<not> key < kz" by auto
      with zb gr lr have gb: "grew key b'" and eb: "getHeight b' = getHeight a + 1" by auto
      with hz hts lr have h2: "getHeight b' = getHeight r" "getHeight a = getHeight r - 1" by auto
      from delete_n_grew[OF ab gb] obtain b2 where
        b2: "delete_n key b' = Inr b2" "avl b2" "getHeight b2 = getHeight b' - 1" by blast
      with hts h2 have n1: "\<bar>getHeight b2 - getHeight r\<bar> \<le> 1" by simp
      have d1: "delete_n key (Node k vs b' r (1 + max (getHeight b') (getHeight r)))
          = Inr (Node k vs b2 r (1 + max (getHeight b2) (getHeight r)))"
        using lt b2 balance_noop[OF n1] by (simp add: delete_n_lt del: delete_n.simps)
      from hts h2 b2
      have n2: "\<bar>getHeight (Node kl vl ll a (1 + max (getHeight ll) (getHeight a)))
                 - getHeight (Node k vs b2 r (1 + max (getHeight b2) (getHeight r)))\<bar> \<le> 1" by simp
      from d t1 zb d1 balance_noop[OF n2, of kz vz] hts h2 b2 show ?thesis
        by (auto simp: delete_n_gt simp del: delete_n.simps)
    next
      case zz
      with gr lr have nil: "a = NilNode" "b' = NilNode" by auto
      with hz hts lr have "getHeight r = 0" "getHeight ll = 0" by auto
      with ar all have rn: "r = NilNode" "ll = NilNode" by (simp_all add: getHeight_zero_iff)
      from d t1 zz nil rn show ?thesis
        by (auto simp: delete_n_eq balance_def Let_def simp del: delete_n.simps)
    qed
  qed
qed

lemma delete_after_grow_right:
  assumes al: "avl l" and ar1: "avl r1" and g: "grew key r1" and gt: "k < key"
    and hh: "getHeight r1 = getHeight l + 2"
    and b: "balance (Node k vs l r1 h) = Inr t1"
    and d: "delete_n key t1 = Inr t2"
  shows "getHeight t2 = getHeight l + 2"
proof -
  from g obtain kr vr rl rr hr where r1: "r1 = Node kr vr rl rr hr" by (cases r1) auto
  from ar1 r1 have arl: "avl rl" and arr: "avl rr"
    and hr: "hr = 1 + max (getHeight rl) (getHeight rr)" by auto
  consider (RL) "key < kr" | (RR) "kr < key" | (leaf) "key = kr" by (meson less_linear)
  then show ?thesis
  proof cases
    case leaf
    with g r1 ar1 hh avl_height_nonneg[OF al] show ?thesis by auto
  next
    case RR
    then have nl: "\<not> key < kr" by auto
    with RR g r1 have gr: "grew key rr" and e: "getHeight rr = getHeight rl + 1" by auto
    with hr hh r1 have hts: "getHeight rr = getHeight l + 1" "getHeight rl = getHeight l" by auto
    from b r1 hts hr have t1: "t1 = Node kr vr (Node k vs l rl (getHeight l + 1)) rr (getHeight l + 2)"
      by (auto simp: balance_def Let_def)
    from delete_n_grew[OF arr gr] obtain rr2 where
      rr2: "delete_n key rr = Inr rr2" "avl rr2" "getHeight rr2 = getHeight rr - 1" by blast
    with hts have "\<bar>getHeight (Node k vs l rl (getHeight l + 1)) - getHeight rr2\<bar> \<le> 1" by simp
    from balance_noop[OF this, of kr vr "getHeight l + 2"] d t1 RR rr2 hts show ?thesis
      by (auto simp: delete_n_gt simp del: delete_n.simps)
  next
    case RL
    with g r1 have gl: "grew key rl" and e: "getHeight rl = getHeight rr + 1" by auto
    with hr hh r1 have hts: "getHeight rl = getHeight l + 1" "getHeight rr = getHeight l" by auto
    from gl obtain kz vz a b' hz where rl: "rl = Node kz vz a b' hz" by (cases rl) auto
    from arl rl have aa: "avl a" and ab: "avl b'"
      and hz: "hz = 1 + max (getHeight a) (getHeight b')"
      and bz: "\<bar>getHeight a - getHeight b'\<bar> \<le> 1" by auto
    from b r1 rl hts hr hz have t1: "t1 = Node kz vz (Node k vs l a (1 + max (getHeight l) (getHeight a)))
         (Node kr vr b' rr (1 + max (getHeight b') (getHeight rr)))
         (1 + max (1 + max (getHeight l) (getHeight a)) (1 + max (getHeight b') (getHeight rr)))"
      by (auto simp: balance_def Let_def)
    consider (za) "key < kz" | (zb) "kz < key" | (zz) "key = kz" by (meson less_linear)
    then show ?thesis
    proof cases
      case za
      with gl rl have ga: "grew key a" and ea: "getHeight a = getHeight b' + 1" by auto
      with hz hts rl have h2: "getHeight a = getHeight l" "getHeight b' = getHeight l - 1" by auto
      from delete_n_grew[OF aa ga] obtain a2 where
        a2: "delete_n key a = Inr a2" "avl a2" "getHeight a2 = getHeight a - 1" by blast
      with hts h2 have n1: "\<bar>getHeight l - getHeight a2\<bar> \<le> 1" by simp
      have d1: "delete_n key (Node k vs l a (1 + max (getHeight l) (getHeight a)))
          = Inr (Node k vs l a2 (1 + max (getHeight l) (getHeight a2)))"
        using gt a2 balance_noop[OF n1] by (simp add: delete_n_gt del: delete_n.simps)
      from hts h2 a2
      have n2: "\<bar>getHeight (Node k vs l a2 (1 + max (getHeight l) (getHeight a2)))
                 - getHeight (Node kr vr b' rr (1 + max (getHeight b') (getHeight rr)))\<bar> \<le> 1" by simp
      from d t1 za d1 balance_noop[OF n2, of kz vz] hts h2 a2 show ?thesis
        by (auto simp: delete_n_lt simp del: delete_n.simps)
    next
      case zb
      then have "\<not> key < kz" by auto
      with zb gl rl have gb: "grew key b'" and eb: "getHeight b' = getHeight a + 1" by auto
      with hz hts rl have h2: "getHeight b' = getHeight l" "getHeight a = getHeight l - 1" by auto
      from delete_n_grew[OF ab gb] obtain b2 where
        b2: "delete_n key b' = Inr b2" "avl b2" "getHeight b2 = getHeight b' - 1" by blast
      with hts h2 have n1: "\<bar>getHeight b2 - getHeight rr\<bar> \<le> 1" by simp
      have d1: "delete_n key (Node kr vr b' rr (1 + max (getHeight b') (getHeight rr)))
          = Inr (Node kr vr b2 rr (1 + max (getHeight b2) (getHeight rr)))"
        using RL b2 balance_noop[OF n1] by (simp add: delete_n_lt del: delete_n.simps)
      from hts h2 b2
      have n2: "\<bar>getHeight (Node k vs l a (1 + max (getHeight l) (getHeight a)))
                 - getHeight (Node kr vr b2 rr (1 + max (getHeight b2) (getHeight rr)))\<bar> \<le> 1" by simp
      from d t1 zb d1 balance_noop[OF n2, of kz vz] hts h2 b2 show ?thesis
        by (auto simp: delete_n_gt simp del: delete_n.simps)
    next
      case zz
      with gl rl have nil: "a = NilNode" "b' = NilNode" by auto
      with hz hts rl have "getHeight l = 0" "getHeight rr = 0" by auto
      with al arr have rn: "l = NilNode" "rr = NilNode" by (simp_all add: getHeight_zero_iff)
      from d t1 zz nil rn show ?thesis
        by (auto simp: delete_n_eq balance_def Let_def simp del: delete_n.simps)
    qed
  qed
qed

lemma roundtrip_height:
  "avl t \<Longrightarrow> \<not> snd (find_n key t) \<Longrightarrow> insert_n key v t = Inr t1 \<Longrightarrow>
     delete_n key t1 = Inr t2 \<Longrightarrow> getHeight t2 = getHeight t"
proof (induction t arbitrary: t1 t2)
  case NilNode
  then show ?case by (auto simp: createNode_def)
next
  case (Node k vs l r h)
  from Node.prems(1) have al: "avl l" and ar: "avl r"
    and bal: "\<bar>getHeight l - getHeight r\<bar> \<le> 1"
    and h: "h = 1 + max (getHeight l) (getHeight r)" by auto
  from Node.prems(2) have ne: "k \<noteq> key" by (auto split: if_splits)
  then consider (lt) "key < k" | (gt) "k < key" by (meson less_linear)
  then show ?case
  proof cases
    case lt
    with Node.prems(2) ne have nf: "\<not> snd (find_n key l)" by simp
    from insert_n_avl[OF al, of key v] obtain l1 where
      l1: "insert_n key v l = Inr l1" "avl l1" "l1 \<noteq> NilNode"
      "getHeight l1 = getHeight l \<or> getHeight l1 = getHeight l + 1" by blast
    from Node.prems(3) lt l1 have b: "balance (Node k vs l1 r h) = Inr t1"
      by (simp add: insert_n_lt del: insert_n.simps)
    show ?thesis
    proof (cases "\<bar>getHeight l1 - getHeight r\<bar> \<le> 1")
      case True
      from b balance_noop[OF True, of k vs h]
      have t1: "t1 = Node k vs l1 r (1 + max (getHeight l1) (getHeight r))" by simp
      from delete_n_avl[OF l1(2), of key] obtain l2 where l2: "delete_n key l1 = Inr l2" by blast
      from Node.IH(1)[OF al nf l1(1) l2] have e: "getHeight l2 = getHeight l" .
      with bal have "\<bar>getHeight l2 - getHeight r\<bar> \<le> 1" by simp
      from balance_noop[OF this, of k vs] Node.prems(4) t1 lt l2 e h show ?thesis
        by (auto simp: delete_n_lt simp del: delete_n.simps)
    next
      case False
      with l1(4) bal have hh: "getHeight l1 = getHeight r + 2" "getHeight l1 = getHeight l + 1" by linarith+
      from insert_n_grew[OF al nf l1(1) hh(2)] have g: "grew key l1" .
      from delete_after_grow_left[OF l1(2) ar g lt hh(1) b Node.prems(4)] hh h show ?thesis by simp
    qed
  next
    case gt
    then have nlt: "\<not> key < k" by auto
    with Node.prems(2) ne have nf: "\<not> snd (find_n key r)" by simp
    from insert_n_avl[OF ar, of key v] obtain r1 where
      r1: "insert_n key v r = Inr r1" "avl r1" "r1 \<noteq> NilNode"
      "getHeight r1 = getHeight r \<or> getHeight r1 = getHeight r + 1" by blast
    from Node.prems(3) gt r1 have b: "balance (Node k vs l r1 h) = Inr t1"
      by (simp add: insert_n_gt del: insert_n.simps)
    show ?thesis
    proof (cases "\<bar>getHeight l - getHeight r1\<bar> \<le> 1")
      case True
      from b balance_noop[OF True, of k vs h]
      have t1: "t1 = Node k vs l r1 (1 + max (getHeight l) (getHeight r1))" by simp
      from delete_n_avl[OF r1(2), of key] obtain r2 where r2: "delete_n key r1 = Inr r2" by blast
      from Node.IH(2)[OF ar nf r1(1) r2] have e: "getHeight r2 = getHeight r" .
      with bal have "\<bar>getHeight l - getHeight r2\<bar> \<le> 1" by simp
      from balance_noop[OF this, of k vs] Node.prems(4) t1 gt r2 e h show ?thesis
        by (auto simp: delete_n_gt simp del: delete_n.simps)
    next
      case False
      with r1(4) bal have hh: "getHeight r1 = getHeight l + 2" "getHeight r1 = getHeight r + 1" by linarith+
      from insert_n_grew[OF ar nf r1(1) hh(2)] have g: "grew key r1" .
      from delete_after_grow_right[OF al r1(2) g gt hh(1) b Node.prems(4)] hh h show ?thesis by simp
    qed
  qed
qed

lemma sorted_three_way:
  fixes es :: "('k::linorder \<times> 'v list) list"
  assumes "sorted_wrt (<) (map fst es)"
  shows "es = filter (\<lambda>e. fst e < key) es @ filter (\<lambda>e. fst e = key) es @ filter (\<lambda>e. key < fst e) es"
  using assms
proof (induction es)
  case Nil
  show ?case by simp
next
  case (Cons e es)
  then have above: "\<forall>x\<in>set es. fst e < fst x" and s: "sorted_wrt (<) (map fst es)" by simp_all
  consider (lt) "fst e < key" | (eq) "fst e = key" | (gt) "key < fst e" by (meson less_linear)
  then show ?case
  proof cases
    case lt
    then have "fst e \<noteq> key" "\<not> key < fst e" by auto
    with lt Cons.IH[OF s] show ?thesis by simp
  next
    case eq
    with above have "\<forall>x\<in>set es. key < fst x" by simp
    from filters_above[OF this] eq show ?thesis by simp
  next
    case gt
    with above have "\<forall>x\<in>set es. key < fst x" by auto
    from filters_above[OF this] gt show ?thesis by auto
  qed
qed

lemma del_ins_entries:
  fixes es :: "('k::linorder \<times> 'v list) list"
  assumes "sorted_wrt (<) (map fst es)" and "\<not> snd (lookup key es)"
  shows "del_entries key (ins_entries key v es) = es"
proof -
  from assms have none: "filter (\<lambda>e. fst e = key) es = []"
    by (simp add: filter_key_sorted lookup_def split: option.splits)
  have "(\<lambda>x. fst x < key \<and> fst x \<noteq> key) = (\<lambda>e::'k \<times> 'v list. fst e < key)"
    "(\<lambda>x. key < fst x \<and> fst x \<noteq> key) = (\<lambda>e::'k \<times> 'v list. key < fst e)"
    by auto
  then have "del_entries key (ins_entries key v es)
      = filter (\<lambda>e. fst e < key) es @ filter (\<lambda>e. key < fst e) es"
    by (simp add: del_entries_def ins_entries_def)
  also have "\<dots> = es"
    using sorted_three_way[OF assms(1), of key] none by simp
  finally show ?thesis .
qed

lemma String_t_bracketed: "String_t fmtv t = bracketed (map fmtv (keys_of (root t)))"
proof (cases "root t = NilNode")
  case True
  then show ?thesis by (simp add: String_t_def bracketed_def keys_of_def)
next
  case False
  then show ?thesis by (simp add: String_t_def String_n_bracketed)
qed

section \<open>No call aborts\<close>


lemma getHeight_pos_not_nil: "0 < getHeight t \<Longrightarrow> t \<noteq> NilNode"
  by auto






lemma minValueNode_nonneg:
  "minValueNode t = Inr m \<Longrightarrow> heights_nonneg t \<Longrightarrow> heights_nonneg m"
  by (induction t rule: minValueNode.induct) auto






section \<open>No call aborts on a store of shared nodes\<close>

































section \<open>The claims on the tree\<close>

text \<open>
  C1. Every tree obtained from the empty tree by a finite sequence of Insert and Delete
  calls exists (no call aborts) and satisfies, at every node, strict search-tree order
  (hence no duplicate keys), AVL balance, and height-cache correctness.
\<close>

theorem C1_invariants:
  "\<exists>t. run ms New = Inr t \<and> bst_order (root t) \<and> distinct (keys_of (root t))
        \<and> avl_balanced (root t) \<and> height_cached (root t)"
proof -
  from run_valid[OF New_valid, of ms] obtain t where t: "run ms New = Inr t" "valid t" by blast
  then have "ordered (root t)" "avl (root t)" by (simp_all add: valid_def)
  then have "bst_order (root t)" "avl_balanced (root t)" "height_cached (root t)"
    "distinct (keys_of (root t))"
    using strict_sorted_iff[of "keys_of (root t)"] 
    by (simp_all add: bst_order_iff_ordered avl_iff_spec ordered_def keys_of_def )
  with t show ?thesis by blast
qed

theorem C1_invariants_witness:
  "run [DoInsert (30::int) ''a'', DoInsert 20 ''b'', DoInsert 10 ''c'', DoInsert 5 ''d'', DoDelete 20] New
     = Inr (Tree (Node 10 [''c''] (Node 5 [''d''] NilNode NilNode 1) (Node 30 [''a''] NilNode NilNode 1) 2))
   \<and> bst_order (Node (10::int) [''c''] (Node 5 [''d''] NilNode NilNode 1) (Node 30 [''a''] NilNode NilNode 1) 2)
   \<and> distinct (keys_of (Node (10::int) [''c''] (Node 5 [''d''] NilNode NilNode 1) (Node 30 [''a''] NilNode NilNode 1) 2))
   \<and> avl_balanced (Node (10::int) [''c''] (Node 5 [''d''] NilNode NilNode 1) (Node 30 [''a''] NilNode NilNode 1) 2)
   \<and> height_cached (Node (10::int) [''c''] (Node 5 [''d''] NilNode NilNode 1) (Node 30 [''a''] NilNode NilNode 1) 2)"
  using C1_invariants[of "[DoInsert (30::int) ''a'', DoInsert 20 ''b'', DoInsert 10 ''c'', DoInsert 5 ''d'', DoDelete 20]"]
  by (simp add: Insert_def Delete_def New_def balance_def createNode_def keys_of_def)

text \<open>
  C2. In a reachable tree, Delete of a key that is present succeeds and removes the key
  with all of its values: afterwards Contains is false and Find returns the empty
  sequence and false. When the node holding the key has two children, the leftmost node
  of its right subtree exists, deleting that node's key from the right subtree succeeds,
  and the deletion at the node is the rebalancing of the node rebuilt with that key and
  that value sequence over the old left subtree and the reduced right subtree; the
  successor's key is then still found, with the value sequence it had before.
\<close>

theorem C2_delete_removes:
  assumes "run ms New = Inr t" and "Contains k t"
  shows "\<exists>t'. Delete k t = Inr t' \<and> \<not> Contains k t' \<and> Find k t' = ([], False) \<and>
     (\<forall>vs l r h. findNode k (root t) = (Node k vs l r h, True) \<and> l \<noteq> NilNode \<and> r \<noteq> NilNode \<longrightarrow>
        (\<exists>sk svs sr sh r'.
           minValueNode r = Inr (Node sk svs NilNode sr sh) \<and>
           delete_n sk r = Inr r' \<and>
           delete_n k (Node k vs l r h) = balance (Node sk svs l r' h) \<and>
           Find sk t = (svs, True) \<and> Find sk t' = (svs, True)))"
proof -
  from assms(1) have v: "valid t" by (rule run_New_valid)
  from Delete_entries[OF v, of k] obtain t' where
    t': "Delete k t = Inr t'" "valid t'" "entries (root t') = del_entries k (entries (root t))"
    by blast
  have gone: "Find k t' = ([], False)"
    using t' by (simp add: Find_entries lookup_del_same)
  then have nc: "\<not> Contains k t'" by (simp add: Contains_Find)
  have two: "\<exists>sk svs sr sh r'.
           minValueNode r = Inr (Node sk svs NilNode sr sh) \<and>
           delete_n sk r = Inr r' \<and>
           delete_n k (Node k vs l r h) = balance (Node sk svs l r' h) \<and>
           Find sk t = (svs, True) \<and> Find sk t' = (svs, True)"
    if fn: "findNode k (root t) = (Node k vs l r h, True)" and l: "l \<noteq> NilNode" and r: "r \<noteq> NilNode"
    for vs l r h
  proof -
    from v have "avl (root t)" "ordered (root t)" by (simp_all add: valid_def)
    with findNode_subtree[OF fn] have sub: "set (entries (Node k vs l r h)) \<subseteq> set (entries (root t))"
      and an: "avl (Node k vs l r h)" and on: "ordered (Node k vs l r h)"
      by blast+
    from minValueNode_total[OF r] obtain sk svs sr sh where
      m: "minValueNode r = Inr (Node sk svs NilNode sr sh)" by blast
    from an have "avl r" by simp
    from delete_n_avl[OF this, of sk] obtain r' where r': "delete_n sk r = Inr r'" by blast
    from l r m r' have eq: "delete_n k (Node k vs l r h) = balance (Node sk svs l r' h)"
      by (simp add: delete_n_eq del: delete_n.simps)
    from minValueNode_entries[OF m] obtain rest where "entries r = (sk, svs) # rest" by blast
    then have mem: "(sk, svs) \<in> set (entries r)" by simp
    with on have "k < sk" by (auto simp: ordered_Node)
    then have ne: "sk \<noteq> k" by simp
    from mem sub have "(sk, svs) \<in> set (entries (root t))" by auto
    with v have f: "Find sk t = (svs, True)"
      by (simp add: Find_entries valid_def ordered_def lookup_member)
    have "Find sk t' = Find sk t"
      using t' v by (simp add: Find_entries lookup_del_other[OF ne])
    with f m r' eq show ?thesis by simp
  qed
  from t'(1) gone nc two show ?thesis by blast
qed

theorem C2_delete_removes_witness:
  "run [DoInsert (20::int) ''a'', DoInsert 10 ''b'', DoInsert 30 ''c''] New = Inr (Tree (Node (20::int) [''a''] (Node 10 [''b''] NilNode NilNode 1) (Node 30 [''c''] NilNode NilNode 1) 2))
   \<and> Contains 20 (Tree (Node (20::int) [''a''] (Node 10 [''b''] NilNode NilNode 1) (Node 30 [''c''] NilNode NilNode 1) 2))
   \<and> (\<exists>t'. Delete 20 (Tree (Node (20::int) [''a''] (Node 10 [''b''] NilNode NilNode 1) (Node 30 [''c''] NilNode NilNode 1) 2)) = Inr t' \<and> \<not> Contains 20 t' \<and> Find 20 t' = ([], False)
          \<and> Find 30 (Tree (Node (20::int) [''a''] (Node 10 [''b''] NilNode NilNode 1) (Node 30 [''c''] NilNode NilNode 1) 2)) = ([''c''], True) \<and> Find 30 t' = ([''c''], True))"
proof -
  have r: "run [DoInsert (20::int) ''a'', DoInsert 10 ''b'', DoInsert 30 ''c''] New = Inr (Tree (Node (20::int) [''a''] (Node 10 [''b''] NilNode NilNode 1) (Node 30 [''c''] NilNode NilNode 1) 2))"
    by (simp add: Insert_def New_def balance_def createNode_def)
  have c: "Contains 20 (Tree (Node (20::int) [''a''] (Node 10 [''b''] NilNode NilNode 1) (Node 30 [''c''] NilNode NilNode 1) 2))"
    by (simp add: Contains_def contains_n_def)
  from C2_delete_removes[OF r c] obtain t' where
    t': "Delete 20 (Tree (Node (20::int) [''a''] (Node 10 [''b''] NilNode NilNode 1) (Node 30 [''c''] NilNode NilNode 1) 2)) = Inr t'" "\<not> Contains 20 t'" "Find 20 t' = ([], False)"
    and two: "\<And>vs l r h. findNode 20 (root (Tree (Node (20::int) [''a''] (Node 10 [''b''] NilNode NilNode 1) (Node 30 [''c''] NilNode NilNode 1) 2))) = (Node 20 vs l r h, True) \<and> l \<noteq> NilNode \<and> r \<noteq> NilNode \<Longrightarrow>
        (\<exists>sk svs sr sh r'.
           minValueNode r = Inr (Node sk svs NilNode sr sh) \<and>
           delete_n sk r = Inr r' \<and>
           delete_n 20 (Node 20 vs l r h) = balance (Node sk svs l r' h) \<and>
           Find sk (Tree (Node (20::int) [''a''] (Node 10 [''b''] NilNode NilNode 1) (Node 30 [''c''] NilNode NilNode 1) 2)) = (svs, True) \<and> Find sk t' = (svs, True))"
    by blast
  from two[of "[''a'']" "Node 10 [''b''] NilNode NilNode 1" "Node 30 [''c''] NilNode NilNode 1" 2]
  have "Find 30 (Tree (Node (20::int) [''a''] (Node 10 [''b''] NilNode NilNode 1) (Node 30 [''c''] NilNode NilNode 1) 2)) = ([''c''], True) \<and> Find 30 t' = ([''c''], True)"
    by simp
  with r c t' show ?thesis by blast
qed

text \<open>
  C3. Inserting 1 with "a" and then "b" into the empty tree gives one node whose values
  are "a", "b" in that order, so Find returns them with found = true and Size is 1; and
  in every reachable tree, inserting a value under a key that is present appends it to
  that key's values and leaves Size as it was.
\<close>

theorem C3_repeated_insert:
  "(run [DoInsert (1::int) ''a'', DoInsert 1 ''b''] New
      = Inr (Tree (Node 1 [''a'', ''b''] NilNode NilNode 1))
    \<and> Find (1::int) (Tree (Node 1 [''a'', ''b''] NilNode NilNode 1)) = ([''a'', ''b''], True)
    \<and> Size (Tree (Node (1::int) [''a'', ''b''] NilNode NilNode 1)) = 1)
   \<and> (\<forall>ms t k vs v. run ms New = Inr (t :: ('k::linorder, 'v) Tree) \<longrightarrow> Find k t = (vs, True) \<longrightarrow>
         (\<exists>t'. Insert k v t = Inr t' \<and> Find k t' = (vs @ [v], True) \<and> Size t' = Size t))"
proof -
  have a: "run [DoInsert (1::int) ''a'', DoInsert 1 ''b''] New
      = Inr (Tree (Node 1 [''a'', ''b''] NilNode NilNode 1))"
    by (simp add: Insert_def New_def createNode_def)
  have b: "Find (1::int) (Tree (Node 1 [''a'', ''b''] NilNode NilNode 1)) = ([''a'', ''b''], True)"
    "Size (Tree (Node (1::int) [''a'', ''b''] NilNode NilNode 1)) = 1"
    by (simp_all add: Find_def Size_def)
  have c: "\<exists>t'. Insert k v t = Inr t' \<and> Find k t' = (vs @ [v], True) \<and> Size t' = Size t"
    if r: "run ms New = Inr t" and f: "Find k t = (vs, True)"
    for ms and t :: "('k, 'v) Tree" and k vs v
  proof -
    from r have v: "valid t" by (rule run_New_valid)
    then have s: "sorted_wrt (<) (map fst (entries (root t)))" by (simp add: valid_def ordered_def)
    from Insert_entries[OF v, of k v] obtain t' where
      t': "Insert k v t = Inr t'" "valid t'" "entries (root t') = ins_entries k v (entries (root t))"
      by blast
    from f v have l: "lookup k (entries (root t)) = (vs, True)" by (simp add: Find_entries)
    have "Find k t' = (vs @ [v], True)"
      using t' l by (simp add: Find_entries lookup_ins_same[OF s])
    moreover have "Size t' = Size t"
      using t' l by (simp add: Size_root getSize_entries length_ins_entries[OF s])
    ultimately show ?thesis using t'(1) by blast
  qed
  from a b c show ?thesis by blast
qed

theorem C3_repeated_insert_witness:
  "run [DoInsert (20::int) ''a'', DoInsert 10 ''b'', DoInsert 30 ''c''] New = Inr (Tree (Node (20::int) [''a''] (Node 10 [''b''] NilNode NilNode 1) (Node 30 [''c''] NilNode NilNode 1) 2))
   \<and> Find 10 (Tree (Node (20::int) [''a''] (Node 10 [''b''] NilNode NilNode 1) (Node 30 [''c''] NilNode NilNode 1) 2)) = ([''b''], True)
   \<and> (\<exists>t'. Insert 10 ''z'' (Tree (Node (20::int) [''a''] (Node 10 [''b''] NilNode NilNode 1) (Node 30 [''c''] NilNode NilNode 1) 2)) = Inr t' \<and> Find 10 t' = ([''b''] @ [''z''], True) \<and> Size t' = Size (Tree (Node (20::int) [''a''] (Node 10 [''b''] NilNode NilNode 1) (Node 30 [''c''] NilNode NilNode 1) 2)))"
proof -
  have r: "run [DoInsert (20::int) ''a'', DoInsert 10 ''b'', DoInsert 30 ''c''] New = Inr (Tree (Node (20::int) [''a''] (Node 10 [''b''] NilNode NilNode 1) (Node 30 [''c''] NilNode NilNode 1) 2))"
    by (simp add: Insert_def New_def balance_def createNode_def)
  have f: "Find 10 (Tree (Node (20::int) [''a''] (Node 10 [''b''] NilNode NilNode 1) (Node 30 [''c''] NilNode NilNode 1) 2)) = ([''b''], True)"
    by (simp add: Find_def)
  from C3_repeated_insert[THEN conjunct2, rule_format, OF r f, of "''z''"] r f
  show ?thesis by simp
qed

text \<open>
  C4. From the empty tree, each of the insertion orders 30, 20, 10 and 10, 20, 30 and
  30, 10, 20 and 10, 30, 20 ends with key 20 at the root, 10 on its left and 30 on its
  right; the last rebalancing step at the root is a single right rotation, a single left
  rotation, a left rotation of the left child followed by a right rotation, and a right
  rotation of the right child followed by a left rotation, respectively.
\<close>

theorem C4_rotation_cases:
  "run [DoInsert (30::int) a, DoInsert 20 b, DoInsert 10 c] New
     = Inr (Tree (Node 20 [b] (Node 10 [c] NilNode NilNode 1) (Node 30 [a] NilNode NilNode 1) 2))
   \<and> rebalance (Node (30::int) [a] (Node 20 [b] (Node 10 [c] NilNode NilNode 1) NilNode 2) NilNode 3)
     = rotateRight (Node 30 [a] (Node 20 [b] (Node 10 [c] NilNode NilNode 1) NilNode 2) NilNode 3)
   \<and> run [DoInsert (10::int) a, DoInsert 20 b, DoInsert 30 c] New
     = Inr (Tree (Node 20 [b] (Node 10 [a] NilNode NilNode 1) (Node 30 [c] NilNode NilNode 1) 2))
   \<and> rebalance (Node (10::int) [a] NilNode (Node 20 [b] NilNode (Node 30 [c] NilNode NilNode 1) 2) 3)
     = rotateLeft (Node 10 [a] NilNode (Node 20 [b] NilNode (Node 30 [c] NilNode NilNode 1) 2) 3)
   \<and> run [DoInsert (30::int) a, DoInsert 10 b, DoInsert 20 c] New
     = Inr (Tree (Node 20 [c] (Node 10 [b] NilNode NilNode 1) (Node 30 [a] NilNode NilNode 1) 2))
   \<and> rotateLeft (Node (10::int) [b] NilNode (Node 20 [c] NilNode NilNode 1) 2)
     = Inr (Node 20 [c] (Node 10 [b] NilNode NilNode 1) NilNode 2)
   \<and> rebalance (Node (30::int) [a] (Node 10 [b] NilNode (Node 20 [c] NilNode NilNode 1) 2) NilNode 3)
     = rotateRight (Node 30 [a] (Node 20 [c] (Node 10 [b] NilNode NilNode 1) NilNode 2) NilNode 3)
   \<and> run [DoInsert (10::int) a, DoInsert 30 b, DoInsert 20 c] New
     = Inr (Tree (Node 20 [c] (Node 10 [a] NilNode NilNode 1) (Node 30 [b] NilNode NilNode 1) 2))
   \<and> rotateRight (Node (30::int) [b] (Node 20 [c] NilNode NilNode 1) NilNode 2)
     = Inr (Node 20 [c] NilNode (Node 30 [b] NilNode NilNode 1) 2)
   \<and> rebalance (Node (10::int) [a] NilNode (Node 30 [b] (Node 20 [c] NilNode NilNode 1) NilNode 2) 3)
     = rotateLeft (Node 10 [a] NilNode (Node 20 [c] NilNode (Node 30 [b] NilNode NilNode 1) 2) 3)"
  by (simp add: Insert_def New_def balance_def createNode_def)

text \<open>
  C5, with the precondition the code needs. In a reachable tree that does not contain
  the key, Insert of the key followed by Delete of the key succeeds and gives a tree with
  the same Size, the same Height, the same String and the same answer of Contains for
  every key.
\<close>

theorem C5_roundtrip_absent:
  assumes "run ms New = Inr t" and "\<not> Contains k t"
  shows "\<exists>t1 t2. Insert k v t = Inr t1 \<and> Delete k t1 = Inr t2
           \<and> Size t2 = Size t \<and> Height t2 = Height t
           \<and> String_t fmtv t2 = String_t fmtv t
           \<and> (\<forall>j. Contains j t2 = Contains j t)"
proof -
  from assms(1) have v: "valid t" by (rule run_New_valid)
  then have s: "sorted_wrt (<) (map fst (entries (root t)))" and a: "avl (root t)"
    by (simp_all add: valid_def ordered_def)
  from assms(2) v have nl: "\<not> snd (lookup k (entries (root t)))"
    by (simp add: Contains_Find Find_entries)
  from assms(2) have nf: "\<not> snd (find_n k (root t))" by (simp add: Contains_root)
  from Insert_valid[OF v, of k v] obtain t1 where
    t1: "Insert k v t = Inr t1" "valid t1" "root t1 \<noteq> NilNode" by blast
  then have i: "insert_n k v (root t) = Inr (root t1)"
    by (auto simp: Insert_def split: sum.splits)
  with v have e1: "entries (root t1) = ins_entries k v (entries (root t))"
    by (simp add: valid_def insert_n_entries)
  from Delete_valid[OF t1(2), of k] obtain t2 where t2: "Delete k t1 = Inr t2" "valid t2" by blast
  with t1(3) have d: "delete_n k (root t1) = Inr (root t2)"
    by (auto simp: Delete_def split: sum.splits)
  from t1(2) have "ordered (root t1)" by (simp add: valid_def)
  from delete_n_entries[OF this d] e1 have e2: "entries (root t2) = entries (root t)"
    by (simp add: del_ins_entries[OF s nl])
  have "Size t2 = Size t" by (simp add: Size_root getSize_entries e2)
  moreover have "Height t2 = Height t"
    using roundtrip_height[OF a nf i d] by (simp add: Height_root)
  moreover have "String_t fmtv t2 = String_t fmtv t"
    by (simp add: String_t_bracketed keys_of_def e2)
  moreover have "\<forall>j. Contains j t2 = Contains j t"
    using v t2(2) by (simp add: Contains_Find Find_entries e2)
  ultimately show ?thesis using t1(1) t2(1) by blast
qed

theorem C5_roundtrip_absent_witness:
  "run [DoInsert (20::int) ''a'', DoInsert 10 ''b'', DoInsert 30 ''c''] New = Inr (Tree (Node (20::int) [''a''] (Node 10 [''b''] NilNode NilNode 1) (Node 30 [''c''] NilNode NilNode 1) 2))
   \<and> \<not> Contains 25 (Tree (Node (20::int) [''a''] (Node 10 [''b''] NilNode NilNode 1) (Node 30 [''c''] NilNode NilNode 1) 2))
   \<and> (\<exists>t1 t2. Insert 25 ''z'' (Tree (Node (20::int) [''a''] (Node 10 [''b''] NilNode NilNode 1) (Node 30 [''c''] NilNode NilNode 1) 2)) = Inr t1 \<and> Delete 25 t1 = Inr t2
           \<and> Size t2 = Size (Tree (Node (20::int) [''a''] (Node 10 [''b''] NilNode NilNode 1) (Node 30 [''c''] NilNode NilNode 1) 2)) \<and> Height t2 = Height (Tree (Node (20::int) [''a''] (Node 10 [''b''] NilNode NilNode 1) (Node 30 [''c''] NilNode NilNode 1) 2))
           \<and> String_t fmt_int t2 = String_t fmt_int (Tree (Node (20::int) [''a''] (Node 10 [''b''] NilNode NilNode 1) (Node 30 [''c''] NilNode NilNode 1) 2))
           \<and> (\<forall>j. Contains j t2 = Contains j (Tree (Node (20::int) [''a''] (Node 10 [''b''] NilNode NilNode 1) (Node 30 [''c''] NilNode NilNode 1) 2))))"
proof -
  have r: "run [DoInsert (20::int) ''a'', DoInsert 10 ''b'', DoInsert 30 ''c''] New = Inr (Tree (Node (20::int) [''a''] (Node 10 [''b''] NilNode NilNode 1) (Node 30 [''c''] NilNode NilNode 1) 2))"
    by (simp add: Insert_def New_def balance_def createNode_def)
  have c: "\<not> Contains 25 (Tree (Node (20::int) [''a''] (Node 10 [''b''] NilNode NilNode 1) (Node 30 [''c''] NilNode NilNode 1) 2))"
    by (simp add: Contains_def contains_n_def)
  from C5_roundtrip_absent[OF r c, of "''z''" fmt_int] r c show ?thesis by blast
qed

text \<open>
  C5 without that precondition fails: when the key is already present, Insert appends a
  value to its node and Delete then removes the node with all of its values, so the key
  that was there before is gone.
\<close>

theorem C5_roundtrip_present_counterexample:
  "run [DoInsert (1::int) ''a''] New = Inr (Tree (Node 1 [''a''] NilNode NilNode 1))
   \<and> Insert (1::int) ''b'' (Tree (Node 1 [''a''] NilNode NilNode 1))
       = Inr (Tree (Node 1 [''a'', ''b''] NilNode NilNode 1))
   \<and> Delete (1::int) (Tree (Node 1 [''a'', ''b''] NilNode NilNode 1)) = Inr (Tree NilNode)
   \<and> Size (Tree (Node (1::int) [''a''] NilNode NilNode 1)) = 1
   \<and> Size (Tree NilNode :: (int, string) Tree) = 0
   \<and> Height (Tree (Node (1::int) [''a''] NilNode NilNode 1)) = 1
   \<and> Height (Tree NilNode :: (int, string) Tree) = 0
   \<and> String_t fmt_int (Tree (Node (1::int) [''a''] NilNode NilNode 1)) = ''[1]''
   \<and> String_t fmt_int (Tree NilNode :: (int, string) Tree) = ''[]''
   \<and> Contains (1::int) (Tree (Node 1 [''a''] NilNode NilNode 1))
   \<and> \<not> Contains (1::int) (Tree NilNode :: (int, string) Tree)"
  by (simp add: Insert_def Delete_def New_def createNode_def Size_def Height_def String_t_def
        Contains_def contains_n_def TrimSuffix_def fmt_int_def fmt_nat.simps[of "Suc 0"])

text \<open>
  C6. In a reachable tree, Delete of a key that is not present returns the very same
  tree, node for node and field for field; Delete on the empty tree returns the empty
  tree. Neither aborts.
\<close>

theorem C6_delete_absent:
  assumes "run ms New = Inr t" and "\<not> Contains k t"
  shows "Delete k t = Inr t \<and> Delete k' (New :: ('k::linorder, 'v) Tree) = Inr New"
  using Delete_absent[OF run_New_valid[OF assms(1)] assms(2)]
  by (simp add: Delete_def New_def)

theorem C6_delete_absent_witness:
  "run [DoInsert (20::int) ''a'', DoInsert 10 ''b'', DoInsert 30 ''c''] New = Inr (Tree (Node (20::int) [''a''] (Node 10 [''b''] NilNode NilNode 1) (Node 30 [''c''] NilNode NilNode 1) 2))
   \<and> \<not> Contains 25 (Tree (Node (20::int) [''a''] (Node 10 [''b''] NilNode NilNode 1) (Node 30 [''c''] NilNode NilNode 1) 2))
   \<and> Delete 25 (Tree (Node (20::int) [''a''] (Node 10 [''b''] NilNode NilNode 1) (Node 30 [''c''] NilNode NilNode 1) 2)) = Inr (Tree (Node (20::int) [''a''] (Node 10 [''b''] NilNode NilNode 1) (Node 30 [''c''] NilNode NilNode 1) 2))
   \<and> Delete (7::int) (New :: (int, string) Tree) = Inr New"
proof -
  have r: "run [DoInsert (20::int) ''a'', DoInsert 10 ''b'', DoInsert 30 ''c''] New = Inr (Tree (Node (20::int) [''a''] (Node 10 [''b''] NilNode NilNode 1) (Node 30 [''c''] NilNode NilNode 1) 2))"
    by (simp add: Insert_def New_def balance_def createNode_def)
  have f: "\<not> Contains 25 (Tree (Node (20::int) [''a''] (Node 10 [''b''] NilNode NilNode 1) (Node 30 [''c''] NilNode NilNode 1) 2))"
    by (simp add: Contains_def contains_n_def)
  from C6_delete_absent[OF r f, of 7] r f show ?thesis by simp
qed



text \<open>
  C8, as the code has it. On the empty tree String returns "[]" while Print hands the
  logger the fixed message "Tried to print empty tree". On a reachable tree that is not
  empty, Print hands the logger exactly the text of String, and that text is the keys in
  strictly ascending order, each rendered, separated by a comma and a space, between
  brackets.
\<close>

theorem C8_render:
  "String_t fmtv (Tree NilNode) = ''[]''
   \<and> Print_t fmtv (Tree NilNode) = [''Tried to print empty tree'']
   \<and> (run ms New = Inr t \<longrightarrow> root t \<noteq> NilNode \<longrightarrow>
        Print_t fmtv t = [String_t fmtv t]
        \<and> String_t fmtv t = bracketed (map fmtv (keys_of (root t)))
        \<and> sorted_wrt (<) (keys_of (root t)))"
proof -
  have "Print_t fmtv t = [String_t fmtv t]
        \<and> String_t fmtv t = bracketed (map fmtv (keys_of (root t)))
        \<and> sorted_wrt (<) (keys_of (root t))"
    if r: "run ms New = Inr t" and ne: "root t \<noteq> NilNode"
  proof -
    from run_New_valid[OF r] have "sorted_wrt (<) (keys_of (root t))"
      by (simp add: valid_def ordered_def keys_of_def)
    moreover from ne have "Print_t fmtv t = [String_t fmtv t]"
      by (cases "root t") (simp_all add: Print_t_def String_t_def)
    moreover from ne have "String_t fmtv t = bracketed (map fmtv (keys_of (root t)))"
      by (simp add: String_t_def String_n_bracketed)
    ultimately show ?thesis by blast
  qed
  then show ?thesis by (simp add: String_t_def Print_t_def)
qed

theorem C8_render_witness:
  "run [DoInsert (20::int) ''a'', DoInsert 10 ''b'', DoInsert 30 ''c''] New = Inr (Tree (Node (20::int) [''a''] (Node 10 [''b''] NilNode NilNode 1) (Node 30 [''c''] NilNode NilNode 1) 2))
   \<and> root (Tree (Node (20::int) [''a''] (Node 10 [''b''] NilNode NilNode 1) (Node 30 [''c''] NilNode NilNode 1) 2)) \<noteq> NilNode
   \<and> Print_t fmt_int (Tree (Node (20::int) [''a''] (Node 10 [''b''] NilNode NilNode 1) (Node 30 [''c''] NilNode NilNode 1) 2)) = [''[10, 20, 30]'']
   \<and> String_t fmt_int (Tree (Node (20::int) [''a''] (Node 10 [''b''] NilNode NilNode 1) (Node 30 [''c''] NilNode NilNode 1) 2)) = ''[10, 20, 30]''
   \<and> sorted_wrt (<) (keys_of (root (Tree (Node (20::int) [''a''] (Node 10 [''b''] NilNode NilNode 1) (Node 30 [''c''] NilNode NilNode 1) 2))))"
proof -
  have r: "run [DoInsert (20::int) ''a'', DoInsert 10 ''b'', DoInsert 30 ''c''] New = Inr (Tree (Node (20::int) [''a''] (Node 10 [''b''] NilNode NilNode 1) (Node 30 [''c''] NilNode NilNode 1) 2))"
    by (simp add: Insert_def New_def balance_def createNode_def)
  have n: "root (Tree (Node (20::int) [''a''] (Node 10 [''b''] NilNode NilNode 1) (Node 30 [''c''] NilNode NilNode 1) 2)) \<noteq> NilNode" by simp
  have f: "fmt_int 10 = ''10''" "fmt_int 20 = ''20''" "fmt_int 30 = ''30''"
    by (simp_all add: fmt_int_def fmt_nat.simps[of 10] fmt_nat.simps[of 20] fmt_nat.simps[of 30]
          fmt_nat.simps[of "Suc 0"] fmt_nat.simps[of 2] fmt_nat.simps[of 3] fmt_nat.simps[of 0])
  from C8_render[of fmt_int "[DoInsert (20::int) ''a'', DoInsert 10 ''b'', DoInsert 30 ''c'']" "(Tree (Node (20::int) [''a''] (Node 10 [''b''] NilNode NilNode 1) (Node 30 [''c''] NilNode NilNode 1) 2))", THEN conjunct2, THEN conjunct2, rule_format, OF r n] r n f
  show ?thesis by (simp add: keys_of_def bracketed_def)
qed

text \<open>
  C8 as stated fails on the empty tree: Print does not write the text of String there.
\<close>

theorem C8_print_empty_counterexample:
  "String_t fmt_int (New :: (int, string) Tree) = ''[]''
   \<and> Print_t fmt_int (New :: (int, string) Tree) = [''Tried to print empty tree'']
   \<and> Print_t fmt_int (New :: (int, string) Tree) \<noteq> [String_t fmt_int (New :: (int, string) Tree)]"
  by (simp add: String_t_def Print_t_def New_def)

text \<open>
  C10. In a reachable tree, inserting under a key or deleting a key leaves what Find
  returns for every other key as it was: the same flag and the same values in the same
  order.
\<close>

theorem C10_frame:
  assumes "run ms New = Inr t" and "j \<noteq> k"
  shows "(\<exists>t'. Insert j v t = Inr t' \<and> Find k t' = Find k t)
       \<and> (\<exists>t'. Delete j t = Inr t' \<and> Find k t' = Find k t)"
proof -
  from assms(1) have v: "valid t" by (rule run_New_valid)
  from Insert_entries[OF v, of j v] obtain t1 where
    t1: "Insert j v t = Inr t1" "valid t1" "entries (root t1) = ins_entries j v (entries (root t))"
    by blast
  from Delete_entries[OF v, of j] obtain t2 where
    t2: "Delete j t = Inr t2" "valid t2" "entries (root t2) = del_entries j (entries (root t))"
    by blast
  from assms(2) have kj: "k \<noteq> j" by simp
  have "Find k t1 = Find k t"
    using t1 v by (simp add: Find_entries lookup_ins_other[OF kj])
  moreover have "Find k t2 = Find k t"
    using t2 v by (simp add: Find_entries lookup_del_other[OF kj])
  ultimately show ?thesis using t1(1) t2(1) by blast
qed

theorem C10_frame_witness:
  "run [DoInsert (20::int) ''a'', DoInsert 10 ''b'', DoInsert 30 ''c''] New = Inr (Tree (Node (20::int) [''a''] (Node 10 [''b''] NilNode NilNode 1) (Node 30 [''c''] NilNode NilNode 1) 2))
   \<and> (10::int) \<noteq> 20
   \<and> (\<exists>t'. Insert 10 ''z'' (Tree (Node (20::int) [''a''] (Node 10 [''b''] NilNode NilNode 1) (Node 30 [''c''] NilNode NilNode 1) 2)) = Inr t' \<and> Find 20 t' = Find 20 (Tree (Node (20::int) [''a''] (Node 10 [''b''] NilNode NilNode 1) (Node 30 [''c''] NilNode NilNode 1) 2)))
   \<and> (\<exists>t'. Delete 10 (Tree (Node (20::int) [''a''] (Node 10 [''b''] NilNode NilNode 1) (Node 30 [''c''] NilNode NilNode 1) 2)) = Inr t' \<and> Find 20 t' = Find 20 (Tree (Node (20::int) [''a''] (Node 10 [''b''] NilNode NilNode 1) (Node 30 [''c''] NilNode NilNode 1) 2)))"
proof -
  have r: "run [DoInsert (20::int) ''a'', DoInsert 10 ''b'', DoInsert 30 ''c''] New = Inr (Tree (Node (20::int) [''a''] (Node 10 [''b''] NilNode NilNode 1) (Node 30 [''c''] NilNode NilNode 1) 2))"
    by (simp add: Insert_def New_def balance_def createNode_def)
  have n: "(10::int) \<noteq> 20" by simp
  from C10_frame[OF r n, of "''z''"] r n show ?thesis by simp
qed

section \<open>Splitting a calendar line\<close>

lemma count_take_Suc:
  "i < length s \<Longrightarrow> count_list (take (Suc i) s) c = count_list (take i s) c + (if s ! i = c then 1 else 0)"
  by (simp add: take_Suc_conv_app_nth)

lemma splitColonLoop_found:
  assumes "unquoted_colon_at s j"
    and "i \<le> j"
    and "\<forall>j'. i \<le> j' \<and> j' < j \<longrightarrow> \<not> unquoted_colon_at s j'"
    and "inQuote = odd (count_list (take i s) (CHR 0x22))"
  shows "splitColonLoop s i inQuote = (take j s, drop (j + 1) s, True)"
  using assms
proof (induction s i inQuote rule: splitColonLoop.induct)
  case (1 s i inQuote)
  from "1.prems"(1) have j: "j < length s" "s ! j = CHR '':''" "even (count_list (take j s) (CHR 0x22))"
    by (simp_all add: unquoted_colon_at_def)
  with "1.prems"(2) have i: "i < length s" by simp
  show ?case
  proof (cases "i = j")
    case True
    with j "1.prems"(4) i show ?thesis
      by (simp add: splitColonLoop.simps[of s j])
  next
    case False
    with "1.prems"(2) have lt: "i < j" "i + 1 \<le> j" by simp_all
    from "1.prems"(3) have rest: "\<forall>j'. i + 1 \<le> j' \<and> j' < j \<longrightarrow> \<not> unquoted_colon_at s j'" by simp
    from "1.prems"(3) lt have ni: "\<not> unquoted_colon_at s i" by simp
    show ?thesis
    proof (cases "s ! i = CHR 0x22")
      case True
      have "(\<not> inQuote) = odd (count_list (take (i + 1) s) (CHR 0x22))"
        using "1.prems"(4) i True by (simp add: count_take_Suc)
      from "1.IH"(1)[OF i True "1.prems"(1) lt(2) rest this] i True show ?thesis
        by (simp add: splitColonLoop.simps[of s i])
    next
      case nq: False
      have inv: "inQuote = odd (count_list (take (i + 1) s) (CHR 0x22))"
        using "1.prems"(4) i nq by (simp add: count_take_Suc)
      show ?thesis
      proof (cases "s ! i = CHR '':''")
        case True
        with ni i "1.prems"(4) have q: "inQuote" by (simp add: unquoted_colon_at_def)
        then have "\<not> \<not> inQuote" by simp
        from "1.IH"(2)[OF i nq True this "1.prems"(1) lt(2) rest inv] i nq True q show ?thesis
          by (simp add: splitColonLoop.simps[of s i])
      next
        case False
        from "1.IH"(3)[OF i nq False "1.prems"(1) lt(2) rest inv] i nq False show ?thesis
          by (simp add: splitColonLoop.simps[of s i])
      qed
    qed
  qed
qed

lemma splitColonLoop_none:
  assumes "\<forall>j. i \<le> j \<longrightarrow> \<not> unquoted_colon_at s j"
    and "inQuote = odd (count_list (take i s) (CHR 0x22))"
  shows "splitColonLoop s i inQuote = ([], [], False)"
  using assms
proof (induction s i inQuote rule: splitColonLoop.induct)
  case (1 s i inQuote)
  show ?case
  proof (cases "i < length s")
    case False
    then show ?thesis by (simp add: splitColonLoop.simps[of s i])
  next
    case i: True
    from "1.prems"(1) have rest: "\<forall>j. i + 1 \<le> j \<longrightarrow> \<not> unquoted_colon_at s j" by simp
    from "1.prems"(1) have ni: "\<not> unquoted_colon_at s i" by simp
    show ?thesis
    proof (cases "s ! i = CHR 0x22")
      case True
      have "(\<not> inQuote) = odd (count_list (take (i + 1) s) (CHR 0x22))"
        using "1.prems"(2) i True by (simp add: count_take_Suc)
      from "1.IH"(1)[OF i True rest this] i True show ?thesis
        by (simp add: splitColonLoop.simps[of s i])
    next
      case nq: False
      have inv: "inQuote = odd (count_list (take (i + 1) s) (CHR 0x22))"
        using "1.prems"(2) i nq by (simp add: count_take_Suc)
      show ?thesis
      proof (cases "s ! i = CHR '':''")
        case True
        with ni i "1.prems"(2) have q: "inQuote" by (simp add: unquoted_colon_at_def)
        then have "\<not> \<not> inQuote" by simp
        from "1.IH"(2)[OF i nq True this rest inv] i nq True q show ?thesis
          by (simp add: splitColonLoop.simps[of s i])
      next
        case False
        from "1.IH"(3)[OF i nq False rest inv] i nq False show ?thesis
          by (simp add: splitColonLoop.simps[of s i])
      qed
    qed
  qed
qed

lemma has_unquoted_colon_iff: "has_unquoted_colon s \<longleftrightarrow> (\<exists>i. unquoted_colon_at s i)"
  by (auto simp: has_unquoted_colon_def unquoted_colon_at_def)

lemma first_unquoted_colon:
  assumes "has_unquoted_colon s"
  shows "\<exists>i. unquoted_colon_at s i \<and> (\<forall>j<i. \<not> unquoted_colon_at s j)"
proof -
  from assms obtain i where "unquoted_colon_at s i" by (auto simp: has_unquoted_colon_iff)
  then have "unquoted_colon_at s (LEAST i. unquoted_colon_at s i)
      \<and> (\<forall>j<(LEAST i. unquoted_colon_at s i). \<not> unquoted_colon_at s j)"
    using LeastI[of "unquoted_colon_at s" i] not_less_Least[of _ "unquoted_colon_at s"] by blast
  then show ?thesis by blast
qed

lemma splitOnFirstUnquotedColon_found:
  assumes "unquoted_colon_at s i" and "\<forall>j<i. \<not> unquoted_colon_at s j"
  shows "splitOnFirstUnquotedColon s = (take i s, drop (i + 1) s, True)"
  unfolding splitOnFirstUnquotedColon_def
  using splitColonLoop_found[OF assms(1), of 0 False] assms(2) by simp

lemma splitOnFirstUnquotedColon_none:
  assumes "\<not> has_unquoted_colon s"
  shows "splitOnFirstUnquotedColon s = ([], [], False)"
  unfolding splitOnFirstUnquotedColon_def
  using splitColonLoop_none[of 0 s False] assms by (simp add: has_unquoted_colon_iff)

lemma TrimRight_decomp: "\<exists>suf. s = TrimRight s cs @ suf \<and> set suf \<subseteq> set cs"
proof -
  let ?P = "\<lambda>c. c \<in> set cs"
  have "rev s = takeWhile ?P (rev s) @ dropWhile ?P (rev s)" by simp
  then have "s = rev (dropWhile ?P (rev s)) @ rev (takeWhile ?P (rev s))"
    by (metis rev_append rev_rev_ident)
  moreover have "set (rev (takeWhile ?P (rev s))) \<subseteq> set cs"
    using set_takeWhileD by fastforce
  ultimately show ?thesis unfolding TrimRight_def by blast
qed

lemma unquoted_colon_at_append:
  assumes "CHR '':'' \<notin> set suf"
  shows "unquoted_colon_at (p @ suf) i \<longleftrightarrow> unquoted_colon_at p i"
proof (cases "i < length p")
  case True
  then show ?thesis by (simp add: unquoted_colon_at_def nth_append)
next
  case False
  then have a: "\<not> unquoted_colon_at p i" by (simp add: unquoted_colon_at_def)
  have "\<not> unquoted_colon_at (p @ suf) i"
  proof
    assume u: "unquoted_colon_at (p @ suf) i"
    with False have "i - length p < length suf" and "suf ! (i - length p) = CHR '':''"
      by (auto simp: unquoted_colon_at_def nth_append)
    with nth_mem[of "i - length p" suf] assms show False by auto
  qed
  with a show ?thesis by simp
qed

lemma has_unquoted_colon_TrimRight:
  "has_unquoted_colon (TrimRight s [CHR 0x0D, CHR 0x0A]) \<longleftrightarrow> has_unquoted_colon s"
proof -
  from TrimRight_decomp[of s "[CHR 0x0D, CHR 0x0A]"] obtain suf where
    s: "s = TrimRight s [CHR 0x0D, CHR 0x0A] @ suf" and sub: "set suf \<subseteq> set [CHR 0x0D, CHR 0x0A]"
    by blast
  from sub have "CHR '':'' \<notin> set suf" by auto
  from unquoted_colon_at_append[OF this, of "TrimRight s [CHR 0x0D, CHR 0x0A]"] s
  show ?thesis by (simp add: has_unquoted_colon_iff)
qed

lemma IndexByte_takeWhile:
  "IndexByte s c = (if c \<in> set s then int (length (takeWhile (\<lambda>x. x \<noteq> c) s)) else - 1)"
  by (induction s) (auto simp: Let_def)

lemma split_at_IndexByte:
  "(if IndexByte s c \<ge> 0 then take (nat (IndexByte s c)) s else s) = takeWhile (\<lambda>x. x \<noteq> c) s"
  "(if IndexByte s c \<ge> 0 then drop (nat (IndexByte s c) + 1) s else []) = drop 1 (dropWhile (\<lambda>x. x \<noteq> c) s)"
proof -
  let ?P = "\<lambda>x. x \<noteq> c"
  let ?n = "length (takeWhile ?P s)"
  have t: "take ?n s = takeWhile ?P s"
    by (metis takeWhile_eq_take)
  have d: "drop ?n s = dropWhile ?P s"
    by (metis dropWhile_eq_drop)
  have d1: "drop (?n + 1) s = drop 1 (dropWhile ?P s)"
    using d by (metis add.commute drop_drop)
  have both: "(if IndexByte s c \<ge> 0 then take (nat (IndexByte s c)) s else s) = takeWhile ?P s
      \<and> (if IndexByte s c \<ge> 0 then drop (nat (IndexByte s c) + 1) s else []) = drop 1 (dropWhile ?P s)"
  proof (cases "c \<in> set s")
    case True
    then have "IndexByte s c = int ?n" by (simp add: IndexByte_takeWhile)
    with t d1 show ?thesis by simp
  next
    case False
    then have ib: "IndexByte s c = - 1" by (simp add: IndexByte_takeWhile)
    from False have tw: "takeWhile ?P s = s" and dw: "dropWhile ?P s = []" by auto
    show ?thesis unfolding ib tw dw by simp
  qed
  from both show "(if IndexByte s c \<ge> 0 then take (nat (IndexByte s c)) s else s) = takeWhile ?P s" ..
  from both show "(if IndexByte s c \<ge> 0 then drop (nat (IndexByte s c) + 1) s else []) = drop 1 (dropWhile ?P s)" ..
qed

lemma ParseLine_found:
  assumes "splitOnFirstUnquotedColon (TrimRight line [CHR 0x0D, CHR 0x0A]) = (np, val, True)"
    and "TrimRight line [CHR 0x0D, CHR 0x0A] \<noteq> []"
  shows "\<exists>r. ParseLine ToUpper TrimSpace line = Inr r
    \<and> RawName r = ToUpper (TrimSpace (takeWhile (\<lambda>c. c \<noteq> CHR '';'') np))
    \<and> Params r = drop 1 (dropWhile (\<lambda>c. c \<noteq> CHR '';'') np)
    \<and> Value r = val
    \<and> IsBegin r = (RawName r = ''BEGIN'')
    \<and> IsEnd r = (RawName r = ''END'')
    \<and> IsUnknown r = (RawName r \<noteq> ''BEGIN'' \<and> RawName r \<noteq> ''END'' \<and> propertyByName (RawName r) = None)"
  unfolding ParseLine_def Let_def assms(1) prod.case split_at_IndexByte
  using assms(2) by (simp split: option.splits)

section \<open>The claim on the calendar-line decoder\<close>

text \<open>
  C9. ParseLine returns an error exactly when the line has no colon outside
  double-quoted regions (an empty line has none); an unrecognised property name is never
  an error. For a line with such a colon it returns a record whose raw name is the
  upper-cased trimmed text before the first semicolon of the part before the first
  unquoted colon, whose raw parameters are the rest of that part, whose raw value is what
  follows that colon (without trailing carriage returns and line feeds), whose begin and
  end flags say whether the name is BEGIN or END, and whose unknown flag says that the
  name is neither of those nor in the property table.
\<close>

theorem C9_parse_line_errors:
  "((\<exists>e. ParseLine ToUpper TrimSpace line = Inl e) \<longleftrightarrow> \<not> has_unquoted_colon line)
   \<and> (has_unquoted_colon line \<longrightarrow>
        (\<exists>r i. ParseLine ToUpper TrimSpace line = Inr r
           \<and> unquoted_colon_at (TrimRight line [CHR 0x0D, CHR 0x0A]) i
           \<and> (\<forall>j<i. \<not> unquoted_colon_at (TrimRight line [CHR 0x0D, CHR 0x0A]) j)
           \<and> RawName r = ToUpper (TrimSpace (takeWhile (\<lambda>c. c \<noteq> CHR '';'')
                                           (take i (TrimRight line [CHR 0x0D, CHR 0x0A]))))
           \<and> Params r = drop 1 (dropWhile (\<lambda>c. c \<noteq> CHR '';'')
                                  (take i (TrimRight line [CHR 0x0D, CHR 0x0A])))
           \<and> Value r = drop (i + 1) (TrimRight line [CHR 0x0D, CHR 0x0A])
           \<and> IsBegin r = (RawName r = ''BEGIN'')
           \<and> IsEnd r = (RawName r = ''END'')
           \<and> IsUnknown r = (RawName r \<noteq> ''BEGIN'' \<and> RawName r \<noteq> ''END''
                             \<and> propertyByName (RawName r) = None)))"
proof -
  let ?l = "TrimRight line [CHR 0x0D, CHR 0x0A]"
  have no: "\<exists>e. ParseLine ToUpper TrimSpace line = Inl e" if n: "\<not> has_unquoted_colon line"
  proof -
    from n have "\<not> has_unquoted_colon ?l" by (simp add: has_unquoted_colon_TrimRight)
    from splitOnFirstUnquotedColon_none[OF this] show ?thesis
      by (simp add: ParseLine_def Let_def)
  qed
  have yes: "\<exists>r i. ParseLine ToUpper TrimSpace line = Inr r
           \<and> unquoted_colon_at ?l i
           \<and> (\<forall>j<i. \<not> unquoted_colon_at ?l j)
           \<and> RawName r = ToUpper (TrimSpace (takeWhile (\<lambda>c. c \<noteq> CHR '';'') (take i ?l)))
           \<and> Params r = drop 1 (dropWhile (\<lambda>c. c \<noteq> CHR '';'') (take i ?l))
           \<and> Value r = drop (i + 1) ?l
           \<and> IsBegin r = (RawName r = ''BEGIN'')
           \<and> IsEnd r = (RawName r = ''END'')
           \<and> IsUnknown r = (RawName r \<noteq> ''BEGIN'' \<and> RawName r \<noteq> ''END''
                             \<and> propertyByName (RawName r) = None)"
    if h: "has_unquoted_colon line"
  proof -
    from h have hl: "has_unquoted_colon ?l" by (simp add: has_unquoted_colon_TrimRight)
    from first_unquoted_colon[OF hl] obtain i where
      i: "unquoted_colon_at ?l i" "\<forall>j<i. \<not> unquoted_colon_at ?l j" by blast
    from i(1) have ne: "?l \<noteq> []" by (auto simp: unquoted_colon_at_def)
    from ParseLine_found[OF splitOnFirstUnquotedColon_found[OF i] ne, of ToUpper TrimSpace] i
    show ?thesis by blast
  qed
  from yes have "\<not> (\<exists>e. ParseLine ToUpper TrimSpace line = Inl e)" if "has_unquoted_colon line"
    using that by fastforce
  with no yes show ?thesis by blast
qed

theorem C9_parse_line_errors_witness:
  "has_unquoted_colon ''x-foo;A=1:bar''
   \<and> ParseLine ascii_ToUpper ascii_TrimSpace ''x-foo;A=1:bar''
       = Inr \<lparr>Property = - 1, IsBegin = False, IsEnd = False, Component = - 1,
              RawName = ''X-FOO'', Params = ''A=1'', ParsedParams = [Param ''A'' ''1''],
              Value = ''bar'', IsUnknown = True\<rparr>
   \<and> \<not> has_unquoted_colon ''SUMMARY \"a:b''
   \<and> (\<exists>e. ParseLine ascii_ToUpper ascii_TrimSpace ''SUMMARY \"a:b'' = Inl e)"
proof -
  have h: "has_unquoted_colon ''x-foo;A=1:bar''"
    by code_simp
  have n: "\<not> has_unquoted_colon ''SUMMARY \"a:b''"
    by code_simp
  have v: "ParseLine ascii_ToUpper ascii_TrimSpace ''x-foo;A=1:bar''
       = Inr \<lparr>Property = - 1, IsBegin = False, IsEnd = False, Component = - 1,
              RawName = ''X-FOO'', Params = ''A=1'', ParsedParams = [Param ''A'' ''1''],
              Value = ''bar'', IsUnknown = True\<rparr>"
    by code_simp
  from C9_parse_line_errors[of ascii_ToUpper ascii_TrimSpace "''SUMMARY \"a:b''", THEN conjunct1] n
  have e: "\<exists>e. ParseLine ascii_ToUpper ascii_TrimSpace ''SUMMARY \"a:b'' = Inl e" by simp
  from C9_parse_line_errors[of ascii_ToUpper ascii_TrimSpace "''x-foo;A=1:bar''", THEN conjunct2] h
  have "\<exists>r. ParseLine ascii_ToUpper ascii_TrimSpace ''x-foo;A=1:bar'' = Inr r" by blast
  with h n v e show ?thesis by simp
qed

end
